theory Spec2Isabelle
  imports Main "HOL-Library.Sublist"
begin

section \<open>Text\<close>

text \<open>
  A Python \<open>str\<close> is modelled as a \<^typ>\<open>string\<close>: a list of characters, each read as the
  code point of the same number (U+0000 to U+00FF). The character classes below are
  Python's, restricted to that range.
\<close>

abbreviation NL :: char where
  "NL \<equiv> CHR 0x0A"

abbreviation CR :: char where
  "CR \<equiv> CHR 0x0D"

abbreviation QUOTE :: char where
  "QUOTE \<equiv> CHR 0x27"

abbreviation BACKSLASH :: char where
  "BACKSLASH \<equiv> CHR 0x5C"

definition py_isspace :: "char \<Rightarrow> bool" where
  \<comment> \<open>\<open>str.isspace\<close>: tab, LF, VT, FF, CR, FS, GS, RS, US, space, NEL, NBSP.\<close>
  "py_isspace c \<longleftrightarrow>
     c \<in> {CHR 0x09, CHR 0x0A, CHR 0x0B, CHR 0x0C, CHR 0x0D, CHR 0x1C, CHR 0x1D,
          CHR 0x1E, CHR 0x1F, CHR 0x20, CHR 0x85, CHR 0xA0}"

definition py_isdecimal :: "char \<Rightarrow> bool" where
  \<comment> \<open>A decimal digit (\<open>0\<close> to \<open>9\<close>): what \<open>int\<close> accepts and what \<open>\d\<close> matches.\<close>
  "py_isdecimal c \<longleftrightarrow> c \<in> set ''0123456789''"

definition py_isdigit :: "char \<Rightarrow> bool" where
  \<comment> \<open>\<open>str.isdigit\<close>: the decimal digits and the superscripts two, three and one.\<close>
  "py_isdigit c \<longleftrightarrow> py_isdecimal c \<or> c \<in> {CHR 0xB2, CHR 0xB3, CHR 0xB9}"

definition strip :: "string \<Rightarrow> string" where
  \<comment> \<open>\<open>str.strip()\<close>: leading and trailing whitespace removed.\<close>
  "strip s = rev (dropWhile py_isspace (rev (dropWhile py_isspace s)))"

fun universal_newlines :: "string \<Rightarrow> string" where
  \<comment> \<open>What a file opened in text mode (\<open>open(name, "r")\<close>) gives for its content: CR LF
      and a CR alone are read as LF.\<close>
  "universal_newlines [] = []"
| "universal_newlines [c] = [if c = CR then NL else c]"
| "universal_newlines (c # d # cs) =
     (if c = CR \<and> d = NL then NL # universal_newlines cs
      else if c = CR then NL # universal_newlines (d # cs)
      else c # universal_newlines (d # cs))"

section \<open>Errors\<close>

datatype pyexc =
  TypeError | AttributeError | ConnectionError | ValueError | FileNotFoundError
| RecursionError | UnicodeDecodeError

datatype abort =
  SysExit nat \<comment> \<open>\<open>sys.exit(n)\<close>\<close>
| Uncaught pyexc \<comment> \<open>an exception no handler catches: traceback, status 1\<close>

fun exit_status :: "abort option \<Rightarrow> nat" where
  "exit_status None = 0"
| "exit_status (Some (SysExit n)) = n"
| "exit_status (Some (Uncaught e)) = 1"

section \<open>The inference client\<close>

text \<open>
  The value \<open>json.loads\<close> returns for a line of the stream. An object (a \<open>dict\<close>, one
  value per key) is the list of its members, looked up with \<^const>\<open>map_of\<close>; a number
  is never inspected by the client, so integers stand for all numbers.
\<close>

datatype json =
  JNull | JBool bool | JNum int | JStr string | JArr "json list"
| JObj "(string \<times> json) list"

text \<open>
  A line as \<open>response.iter_lines\<close> yields it, by what \<open>json.loads\<close> does on it: the line is
  empty (a keep-alive, never parsed); \<open>json.loads\<close> raises \<open>JSONDecodeError\<close>; \<open>json.loads\<close>
  raises another exception (\<open>RecursionError\<close> on deep nesting, \<open>ValueError\<close> on an integer
  over the digit limit, \<open>UnicodeDecodeError\<close> on undecodable bytes); or the line parses to
  a value. The stream ends normally or with a connection error raised by the iterator.
\<close>

datatype line =
  Blank
| Malformed \<comment> \<open>\<open>json.loads\<close> raises \<open>JSONDecodeError\<close>\<close>
| Failing pyexc \<comment> \<open>\<open>json.loads\<close> raises another exception\<close>
| Parsed json

datatype stream_end = Eof | Broken

datatype reply =
  RequestException \<comment> \<open>\<open>requests.post\<close> or \<open>raise_for_status\<close> raised\<close>
| Streaming "line list" stream_end

fun accumulate :: "json \<Rightarrow> string \<Rightarrow> pyexc + (string \<times> bool)" where
  \<comment> \<open>Lines 63 to 66 on one parsed value: the new text, and whether the loop breaks.\<close>
  "accumulate (JObj kvs) generated_text =
     (case map_of kvs ''response'' of
        None \<Rightarrow> Inr (generated_text, map_of kvs ''done'' = Some (JBool True))
      | Some (JStr s) \<Rightarrow> Inr (generated_text @ s, map_of kvs ''done'' = Some (JBool True))
      | Some _ \<Rightarrow> Inl TypeError)"
| "accumulate (JArr xs) generated_text =
     (if JStr ''response'' \<in> set xs then Inl TypeError else Inl AttributeError)"
| "accumulate (JStr s) generated_text =
     (if sublist ''response'' s then Inl TypeError else Inl AttributeError)"
| "accumulate _ generated_text = Inl TypeError"

fun consume :: "line list \<Rightarrow> stream_end \<Rightarrow> string \<Rightarrow> abort + string" where
  \<comment> \<open>The loop of lines 56 to 69 over the lines of the stream; line 67 catches
      \<open>JSONDecodeError\<close> and nothing else.\<close>
  "consume [] Eof generated_text = Inr generated_text"
| "consume [] Broken generated_text = Inl (Uncaught ConnectionError)"
| "consume (Blank # ls) e generated_text = consume ls e generated_text"
| "consume (Malformed # ls) e generated_text = consume ls e generated_text"
| "consume (Failing x # ls) e generated_text = Inl (Uncaught x)"
| "consume (Parsed d # ls) e generated_text =
     (case accumulate d generated_text of
        Inl x \<Rightarrow> Inl (Uncaught x)
      | Inr (text', stop) \<Rightarrow> if stop then Inr text' else consume ls e text')"

definition receive :: "reply \<Rightarrow> abort + string" where
  \<comment> \<open>Lines 48 to 73: what the client makes of the endpoint's reply.\<close>
  "receive r =
     (case r of
        RequestException \<Rightarrow> Inl (SysExit 1)
      | Streaming ls e \<Rightarrow>
          (case consume ls e [] of Inl a \<Rightarrow> Inl a | Inr t \<Rightarrow> Inr (strip t)))"

section \<open>The run-time environment and the state of a run\<close>

text \<open>
  What the program takes from outside its own text: the endpoint (its reply to the
  \<open>k\<close>-th request of the run, given the prompt), \<open>csv.reader\<close> (the rows it yields from
  \<open>outline.txt\<close>, opened as the program opens it, given the content of the file),
  the clock (\<open>datetime.now()\<close> formatted \<open>%Y%m%d_%H%M%S\<close>) and the interpreter's limit on the
  digits of a string given to \<open>int\<close> (\<open>sys.get_int_max_str_digits()\<close>: 4300 by default since
  Python 3.11; 0 for no limit, as before 3.11; never between 1 and 639).
\<close>

record runtime =
  endpoint :: "nat \<Rightarrow> string \<Rightarrow> reply"
  csv_reader :: "string \<Rightarrow> string list list"
  timestamp :: string
  int_max_str_digits :: nat

text \<open>
  The state: the files of the working directory, by name, each with its content as
  text, and the number of requests sent so far. The system is POSIX: \<open>os.rename\<close>
  replaces its target, and a file opened in text mode is written as it is and read
  with \<^const>\<open>universal_newlines\<close>.
\<close>

type_synonym fs = "string \<rightharpoonup> string"

record world =
  files :: fs
  calls :: nat

definition call_ollama_api :: "runtime \<Rightarrow> string \<Rightarrow> world \<Rightarrow> (abort + string) \<times> world" where
  "call_ollama_api rt prompt w =
     (receive (endpoint rt (calls w) prompt), w\<lparr>calls := Suc (calls w)\<rparr>)"

section \<open>The chapter writer\<close>

definition read_file :: "string \<Rightarrow> fs \<Rightarrow> string option" where
  \<comment> \<open>\<open>open(name, "r", encoding="utf-8").read()\<close>; \<open>None\<close> is \<open>FileNotFoundError\<close>.\<close>
  "read_file name f = map_option universal_newlines (f name)"

definition append_file :: "string \<Rightarrow> string \<Rightarrow> fs \<Rightarrow> fs" where
  \<comment> \<open>A \<open>write\<close> to a file opened in mode \<open>a\<close>, which creates the file when it is missing.\<close>
  "append_file name data f =
     f(name \<mapsto> (case f name of None \<Rightarrow> data | Some old \<Rightarrow> old @ data))"

definition chapter_prompt :: "string \<Rightarrow> string \<Rightarrow> string \<Rightarrow> string \<Rightarrow> string \<Rightarrow> string" where
  "chapter_prompt chapter_number chapter_title chapter_outline current_book_text book_summary =
     ''Overall Book Summary:'' @ [NL] @ book_summary @ [NL, NL]
     @ ''Story so far:'' @ [NL] @ current_book_text @ [NL, NL]
     @ ''This chapter is described as:'' @ [NL] @ chapter_outline @ [NL, NL]
     @ ''Please write Chapter '' @ chapter_number @ '' titled '' @ [QUOTE] @ chapter_title
     @ [QUOTE] @ '' so that it follows naturally from the story so far.'' @ [NL, NL]
     @ ''Begin the chapter now:''"

definition chapter_heading :: "string \<Rightarrow> string \<Rightarrow> string" where
  \<comment> \<open>The first \<open>write\<close>, line 102.\<close>
  "chapter_heading chapter_number chapter_title =
     [NL, NL] @ ''### Chapter '' @ chapter_number @ '': '' @ chapter_title @ [NL, NL]"

definition chapter_block :: "string \<Rightarrow> string \<Rightarrow> string \<Rightarrow> string" where
  \<comment> \<open>What one call appends: the heading, then the text and a newline (line 103).\<close>
  "chapter_block chapter_number chapter_title chapter_text =
     chapter_heading chapter_number chapter_title @ (chapter_text @ [NL])"

definition write_chapter_to_book ::
  "runtime \<Rightarrow> string \<Rightarrow> string \<Rightarrow> string \<Rightarrow> string \<Rightarrow> string \<Rightarrow> world \<Rightarrow> abort option \<times> world" where
  "write_chapter_to_book rt chapter_number chapter_title chapter_outline current_book_text
       book_summary w =
     (case call_ollama_api rt
         (chapter_prompt chapter_number chapter_title chapter_outline current_book_text
            book_summary) w of
        (Inl a, w1) \<Rightarrow> (Some a, w1)
      | (Inr chapter_text, w1) \<Rightarrow>
          (None,
           w1\<lparr>files :=
             append_file ''book.txt'' (chapter_text @ [NL])
               (append_file ''book.txt'' (chapter_heading chapter_number chapter_title)
                  (files w1))\<rparr>))"

section \<open>The word counter\<close>

definition digit_value :: "char \<Rightarrow> int" where
  "digit_value c = int (of_char c) - 48"

definition decimal_value :: "string \<Rightarrow> int" where
  "decimal_value s = foldl (\<lambda>n c. 10 * n + digit_value c) 0 s"

definition py_int :: "nat \<Rightarrow> string \<Rightarrow> pyexc + int" where
  \<comment> \<open>\<open>int(s)\<close> for a string \<open>s\<close> of \<open>isdigit\<close> characters (no sign, space or underscore):
      \<open>ValueError\<close> when it is empty, holds a character that is no decimal digit, or is
      longer than the interpreter's limit.\<close>
  "py_int limit s =
     (if s = [] \<or> \<not> list_all py_isdecimal s then Inl ValueError
      else if limit \<noteq> 0 \<and> limit < length s then Inl ValueError
      else Inr (decimal_value s))"

definition count_prompt :: "string \<Rightarrow> string" where
  "count_prompt text =
     ''You are given the following text. Please return only the number ''
     @ ''of words in the text (as an integer) without any additional commentary.'' @ [NL, NL]
     @ ''Text:'' @ [NL] @ text @ [NL, NL] @ ''Number of words:''"

definition extract_count :: "nat \<Rightarrow> string \<Rightarrow> int" where
  \<comment> \<open>Lines 119 to 125.\<close>
  "extract_count limit generated_response =
     (case py_int limit (filter py_isdigit generated_response) of
        Inl _ \<Rightarrow> 0
      | Inr word_count \<Rightarrow> word_count)"

definition count_words_with_ollama :: "runtime \<Rightarrow> string \<Rightarrow> world \<Rightarrow> (abort + int) \<times> world" where
  "count_words_with_ollama rt text w =
     (case call_ollama_api rt (count_prompt text) w of
        (Inl a, w1) \<Rightarrow> (Inl a, w1)
      | (Inr generated_response, w1) \<Rightarrow>
          (Inr (extract_count (int_max_str_digits rt) generated_response), w1))"

definition summary_prompt :: "string \<Rightarrow> string" where
  "summary_prompt book_text =
     ''Please provide a concise summary of the following story:'' @ [NL, NL]
     @ book_text @ [NL, NL] @ ''Summary:''"

definition summarize_book :: "runtime \<Rightarrow> string \<Rightarrow> world \<Rightarrow> (abort + string) \<times> world" where
  "summarize_book rt book_text w = call_ollama_api rt (summary_prompt book_text) w"

section \<open>The driver\<close>

text \<open>
  What a run prints (the messages, the diagnostics of the verbose flag, the progress
  bar with its summary) and the one-second pause are not modelled: a run is what it
  does to the files, the requests it sends and how it ends.
\<close>

definition archive_name :: "string \<Rightarrow> string" where
  "archive_name ts = ''book_'' @ ts @ ''.txt''"

definition rename_file :: "string \<Rightarrow> string \<Rightarrow> fs \<Rightarrow> fs" where
  \<comment> \<open>\<open>os.rename(src, dst)\<close> for a file \<open>src\<close> that exists.\<close>
  "rename_file src dst f = (f(src := None))(dst := f src)"

definition archive_existing :: "runtime \<Rightarrow> fs \<Rightarrow> fs" where
  \<comment> \<open>Lines 154 to 158.\<close>
  "archive_existing rt f =
     (if f ''book.txt'' \<noteq> None then rename_file ''book.txt'' (archive_name (timestamp rt)) f
      else f)"

type_synonym chapter_spec = "string \<times> string \<times> string"

fun load_chapters :: "string list list \<Rightarrow> chapter_spec list" where
  \<comment> \<open>The loop of lines 177 to 185 over the rows of the reader.\<close>
  "load_chapters [] = []"
| "load_chapters (row # rows) =
     (if length row < 3 then load_chapters rows
      else (strip (row ! 0), strip (row ! 1), strip (row ! 2)) # load_chapters rows)"

definition ack_prompt :: "string \<Rightarrow> string" where
  "ack_prompt book_text =
     ''Here is the progress so far:'' @ [NL, NL] @ book_text @ [NL, NL]
     @ ''Please read and acknowledge the story so far. ''
     @ ''When you'' @ [QUOTE] @ ''re done, just say '' @ [QUOTE] @ ''Understood.'' @ [QUOTE]"

definition book_so_far :: "fs \<Rightarrow> string" where
  \<comment> \<open>Lines 203 to 207: the transcript as read, empty when the file is missing.\<close>
  "book_so_far f = (case read_file ''book.txt'' f of None \<Rightarrow> [] | Some b \<Rightarrow> b)"

fun write_chapters ::
  "runtime \<Rightarrow> string \<Rightarrow> nat \<Rightarrow> chapter_spec list \<Rightarrow> nat \<Rightarrow> world \<Rightarrow> abort option \<times> world" where
  \<comment> \<open>The loop of lines 199 to 242 over the chapters still to write; the progress bar
      and the pause are left out.\<close>
  "write_chapters rt book_summary total_chapters [] chapters_written w = (None, w)"
| "write_chapters rt book_summary total_chapters
       ((chapter_number, chapter_title, chapter_summary) # rest) chapters_written w =
     (case write_chapter_to_book rt chapter_number chapter_title chapter_summary
             (book_so_far (files w)) book_summary w of
        (Some a, w1) \<Rightarrow> (Some a, w1)
      | (None, w1) \<Rightarrow>
          (case read_file ''book.txt'' (files w1) of
             None \<Rightarrow> (Some (Uncaught FileNotFoundError), w1)
           | Some book_text_after_new_chapter \<Rightarrow>
               (case count_words_with_ollama rt book_text_after_new_chapter w1 of
                  (Inl a, w2) \<Rightarrow> (Some a, w2)
                | (Inr word_count, w2) \<Rightarrow>
                    if Suc chapters_written < total_chapters then
                      (case call_ollama_api rt (ack_prompt book_text_after_new_chapter) w2 of
                         (Inl a, w3) \<Rightarrow> (Some a, w3)
                       | (Inr acknowledgement, w3) \<Rightarrow>
                           write_chapters rt book_summary total_chapters rest
                             (Suc chapters_written) w3)
                    else
                      write_chapters rt book_summary total_chapters rest
                        (Suc chapters_written) w2)))"

definition write_book :: "runtime \<Rightarrow> string \<Rightarrow> chapter_spec list \<Rightarrow> world \<Rightarrow> abort option \<times> world" where
  \<comment> \<open>Lines 194 to 253: the chapters, then the summary of the whole book.\<close>
  "write_book rt book_summary chapters w =
     (case write_chapters rt book_summary (length chapters) chapters 0 w of
        (Some a, w1) \<Rightarrow> (Some a, w1)
      | (None, w1) \<Rightarrow>
          (case read_file ''book.txt'' (files w1) of
             None \<Rightarrow> (Some (Uncaught FileNotFoundError), w1)
           | Some final_book_text \<Rightarrow>
               (case summarize_book rt final_book_text w1 of
                  (Inl a, w2) \<Rightarrow> (Some a, w2)
                | (Inr final_summary, w2) \<Rightarrow> (None, w2))))"

definition main :: "runtime \<Rightarrow> fs \<Rightarrow> abort option \<times> world" where
  \<comment> \<open>A run from the files \<open>f0\<close>: how it ends (\<open>None\<close>: it reaches the end of \<open>main\<close>)
      and the state it leaves.\<close>
  "main rt f0 =
     (let w = \<lparr>files = archive_existing rt f0, calls = 0\<rparr> in
      case read_file ''input.txt'' (files w) of
        None \<Rightarrow> (Some (SysExit 1), w)
      | Some raw \<Rightarrow>
          let book_summary = strip raw in
          if book_summary = [] then (Some (SysExit 0), w)
          else
            (case files w ''outline.txt'' of
               None \<Rightarrow> (Some (SysExit 1), w)
             | Some outline \<Rightarrow>
                 let chapters = load_chapters (csv_reader rt outline) in
                 if chapters = [] then (Some (SysExit 0), w)
                 else write_book rt book_summary chapters w))"

section \<open>The heading converter\<close>

text \<open>
  \<open>re.sub\<close> with the pattern \<open>### Chapter (\d+): (.+)\<close>. A match at the start of a text is
  the literal, the longest run of decimal digits (giving digits back cannot help: what
  follows must be a colon), the literal colon and space, and the rest of the line
  (\<open>.\<close> is any character but the newline, and \<open>.+\<close> is greedy and last), not empty.
\<close>

fun match_literal :: "string \<Rightarrow> string \<Rightarrow> string option" where
  "match_literal [] s = Some s"
| "match_literal (p # ps) [] = None"
| "match_literal (p # ps) (c # cs) = (if p = c then match_literal ps cs else None)"

definition match_heading :: "string \<Rightarrow> (string \<times> string \<times> string) option" where
  \<comment> \<open>The two groups of a match at the start of \<open>s\<close>, and the text after the match.\<close>
  "match_heading s =
     (case match_literal ''### Chapter '' s of
        None \<Rightarrow> None
      | Some s1 \<Rightarrow>
          if takeWhile py_isdecimal s1 = [] then None
          else
            (case match_literal '': '' (dropWhile py_isdecimal s1) of
               None \<Rightarrow> None
             | Some s3 \<Rightarrow>
                 if takeWhile (\<lambda>c. c \<noteq> NL) s3 = [] then None
                 else Some (takeWhile py_isdecimal s1, takeWhile (\<lambda>c. c \<noteq> NL) s3,
                            dropWhile (\<lambda>c. c \<noteq> NL) s3)))"

definition latex_chapter :: "string \<Rightarrow> string" where
  \<comment> \<open>The template \<open>\\chapter{\2}\<close> on the second group.\<close>
  "latex_chapter title = [BACKSLASH] @ ''chapter{'' @ title @ ''}''"

text \<open>
  \<open>re.sub\<close> tries each position from the left; a match is replaced and the scan goes
  on after it, any other character is copied. The pattern never matches the empty text.
\<close>

function re_sub :: "string \<Rightarrow> string" where
  "re_sub [] = []"
| "re_sub (c # cs) =
     (case match_heading (c # cs) of
        Some (number, title, rest) \<Rightarrow> latex_chapter title @ re_sub rest
      | None \<Rightarrow> c # re_sub cs)"
  by pat_completeness auto
termination
proof (relation "measure length")
  show "wf (measure length)"
    by simp
next
  fix c :: char and cs x2 number y title rest
  assume m: "match_heading (c # cs) = Some x2" and "(number, y) = x2" and "(title, rest) = y"
  have lit: "\<And>p s r. match_literal p s = Some r \<Longrightarrow> length r \<le> length s"
  proof -
    fix p s r
    show "match_literal p s = Some r \<Longrightarrow> length r \<le> length s"
      by (induction p s rule: match_literal.induct) (auto split: if_splits)
  qed
  from m obtain s1 s3 where
    s1: "match_literal ''### Chapter '' (c # cs) = Some s1" and
    s3: "match_literal '': '' (dropWhile py_isdecimal s1) = Some s3" and
    t: "takeWhile (\<lambda>c. c \<noteq> NL) s3 \<noteq> []" and
    r: "x2 = (takeWhile py_isdecimal s1, takeWhile (\<lambda>c. c \<noteq> NL) s3, dropWhile (\<lambda>c. c \<noteq> NL) s3)"
    unfolding match_heading_def by (auto split: option.splits if_splits)
  have "length (dropWhile (\<lambda>c. c \<noteq> NL) s3) < length s3"
    using t by (cases s3) (auto simp: le_imp_less_Suc length_dropWhile_le split: if_splits)
  moreover have "length s3 \<le> length (dropWhile py_isdecimal s1)"
    by (rule lit [OF s3])
  moreover have "length (dropWhile py_isdecimal s1) \<le> length s1"
    by (rule length_dropWhile_le)
  moreover have "length s1 \<le> length (c # cs)"
    by (rule lit [OF s1])
  ultimately have "length (dropWhile (\<lambda>c. c \<noteq> NL) s3) < length (c # cs)"
    by linarith
  with r \<open>(number, y) = x2\<close> \<open>(title, rest) = y\<close> show "(rest, c # cs) \<in> measure length"
    by auto
next
  fix c :: char and cs
  assume "match_heading (c # cs) = None"
  show "(cs, c # cs) \<in> measure length"
    by simp
qed


section \<open>Reading a stream, as the interface describes it\<close>

text \<open>
  The words of the interface: a fragment is an object that may carry a \<open>response\<close> text
  and may carry a boolean \<open>done\<close> flag. These definitions state what the client is
  expected to return; they are compared with \<^const>\<open>consume\<close> below.
\<close>

fun well_formed_fragment :: "line \<Rightarrow> bool" where
  "well_formed_fragment (Parsed (JObj kvs)) =
     ((case map_of kvs ''response'' of None \<Rightarrow> True | Some (JStr s) \<Rightarrow> True | Some _ \<Rightarrow> False)
      \<and> (case map_of kvs ''done'' of None \<Rightarrow> True | Some (JBool b) \<Rightarrow> True | Some _ \<Rightarrow> False))"
| "well_formed_fragment _ = False"

fun response_of :: "line \<Rightarrow> string" where
  "response_of (Parsed (JObj kvs)) =
     (case map_of kvs ''response'' of Some (JStr s) \<Rightarrow> s | _ \<Rightarrow> [])"
| "response_of _ = []"

fun is_done :: "line \<Rightarrow> bool" where
  "is_done (Parsed (JObj kvs)) = (map_of kvs ''done'' = Some (JBool True))"
| "is_done _ = False"

fun up_to_done :: "line list \<Rightarrow> line list" where
  \<comment> \<open>The lines up to and including the first one with \<open>done\<close> true.\<close>
  "up_to_done [] = []"
| "up_to_done (l # ls) = (if is_done l then [l] else l # up_to_done ls)"


text \<open>
  The transcript: the content of \<open>book.txt\<close> as stored, empty when there is no such file.
  The data model describes it as one block per chapter written, in order.
\<close>

definition transcript :: "fs \<Rightarrow> string" where
  "transcript f = (case f ''book.txt'' of None \<Rightarrow> [] | Some b \<Rightarrow> b)"

definition blocks :: "chapter_spec list \<Rightarrow> string list \<Rightarrow> string" where
  "blocks chs bodies = concat (map2 (\<lambda>(n, t, ol) body. chapter_block n t body) chs bodies)"

section \<open>Properties of text\<close>

lemma strip_empty: "strip s = [] \<longleftrightarrow> (\<forall>c\<in>set s. py_isspace c)"
proof
  assume "strip s = []"
  then have d: "\<forall>c\<in>set (dropWhile py_isspace s). py_isspace c"
    by (simp add: strip_def dropWhile_eq_Nil_conv)
  have "dropWhile py_isspace s = []"
  proof (cases "dropWhile py_isspace s")
    case Nil
    then show ?thesis .
  next
    case (Cons c cs)
    then have "\<not> py_isspace c"
      using hd_dropWhile [of py_isspace s] by simp
    with d Cons show ?thesis
      by simp
  qed
  then show "\<forall>c\<in>set s. py_isspace c"
    by (simp add: dropWhile_eq_Nil_conv)
next
  assume "\<forall>c\<in>set s. py_isspace c"
  then show "strip s = []"
    by (auto simp: strip_def dest: set_dropWhileD)
qed

lemma universal_newlines_space:
  "(\<forall>c\<in>set (universal_newlines s). py_isspace c) \<longleftrightarrow> (\<forall>c\<in>set s. py_isspace c)"
  by (induction s rule: universal_newlines.induct) (auto simp: py_isspace_def)

lemma strip_universal_newlines_empty:
  "strip (universal_newlines s) = [] \<longleftrightarrow> strip s = []"
  by (simp only: strip_empty universal_newlines_space)

lemma universal_newlines_no_CR: "CR \<notin> set s \<Longrightarrow> universal_newlines s = s"
  by (induction s rule: universal_newlines.induct) auto

section \<open>Properties of the inference client\<close>

lemma accumulate_well_formed:
  "well_formed_fragment (Parsed d) \<Longrightarrow>
     accumulate d t = Inr (t @ response_of (Parsed d), is_done (Parsed d))"
  by (cases d) (auto split: option.splits json.splits)

lemma consume_well_formed:
  assumes "\<forall>l\<in>set ls. l = Blank \<or> l = Malformed \<or> well_formed_fragment l"
      and "e = Eof \<or> (\<exists>l\<in>set ls. is_done l)"
  shows "consume ls e t = Inr (t @ concat (map response_of (up_to_done ls)))"
  using assms
proof (induction ls arbitrary: t)
  case Nil
  then show ?case by simp
next
  case (Cons l ls)
  show ?case
  proof (cases l)
    case Blank
    with Cons.prems have "consume ls e t = Inr (t @ concat (map response_of (up_to_done ls)))"
      by (intro Cons.IH) auto
    with Blank show ?thesis by simp
  next
    case Malformed
    with Cons.prems have "consume ls e t = Inr (t @ concat (map response_of (up_to_done ls)))"
      by (intro Cons.IH) auto
    with Malformed show ?thesis by simp
  next
    case (Failing x)
    with Cons.prems show ?thesis by simp
  next
    case (Parsed d)
    with Cons.prems have wf: "well_formed_fragment (Parsed d)"
      by auto
    show ?thesis
    proof (cases "is_done (Parsed d)")
      case True
      with Parsed wf show ?thesis
        by (simp add: accumulate_well_formed)
    next
      case False
      with Parsed Cons.prems
      have "consume ls e (t @ response_of (Parsed d)) =
              Inr ((t @ response_of (Parsed d)) @ concat (map response_of (up_to_done ls)))"
        by (intro Cons.IH) auto
      with Parsed wf False show ?thesis
        by (simp add: accumulate_well_formed)
    qed
  qed
qed

lemma consume_skips_malformed:
  "consume (filter (\<lambda>l. l \<noteq> Malformed) ls) e t = consume ls e t"
  by (induction ls e t rule: consume.induct) (auto split: sum.splits)

lemma consume_failing:
  "\<forall>l\<in>set pre. l = Blank \<or> l = Malformed \<or> (well_formed_fragment l \<and> \<not> is_done l) \<Longrightarrow>
     consume (pre @ Failing x # post) e t = Inl (Uncaught x)"
proof (induction pre arbitrary: t)
  case Nil
  show ?case by simp
next
  case (Cons l pre)
  show ?case
  proof (cases l)
    case Blank
    with Cons show ?thesis by simp
  next
    case Malformed
    with Cons show ?thesis by simp
  next
    case (Failing y)
    with Cons.prems show ?thesis by simp
  next
    case (Parsed d)
    with Cons.prems have "well_formed_fragment (Parsed d)" "\<not> is_done (Parsed d)"
      by auto
    then show ?thesis
      using Parsed Cons by (simp add: accumulate_well_formed)
  qed
qed

lemma up_to_done_no_done: "\<forall>l\<in>set ls. \<not> is_done l \<Longrightarrow> up_to_done ls = ls"
  by (induction ls) auto

lemma up_to_done_last: "\<forall>l\<in>set (butlast ls). \<not> is_done l \<Longrightarrow> up_to_done ls = ls"
  by (induction ls) (auto split: if_splits)

lemma up_to_done_filter:
  "\<forall>l\<in>set (butlast ls). \<not> is_done l \<Longrightarrow> up_to_done (filter P ls) = filter P ls"
  by (induction ls) (auto split: if_splits)

lemma fst_call_ollama_api:
  "fst (call_ollama_api rt prompt w) = receive (endpoint rt (calls w) prompt)"
  by (simp add: call_ollama_api_def)

text \<open>
  C2. When every line of the stream is a fragment as the interface describes it (an
  object that may carry a \<open>response\<close> text and may carry a boolean \<open>done\<close>), and the stream
  holds a fragment with \<open>done\<close> true or ends normally, the client returns the \<open>response\<close>
  texts of the fragments up to and including the first one with \<open>done\<close> true, concatenated
  in arrival order and trimmed. For the fragments \<open>{"response":"Hello "}\<close>,
  \<open>{"response":"world"}\<close>, \<open>{"done":true}\<close> it returns \<open>Hello world\<close>.
\<close>

theorem client_concatenates_until_done:
  "(endpoint rt (calls w) prompt = Streaming ls e
      \<and> (\<forall>l\<in>set ls. well_formed_fragment l)
      \<and> (e = Eof \<or> (\<exists>l\<in>set ls. is_done l))
    \<longrightarrow> fst (call_ollama_api rt prompt w) =
          Inr (strip (concat (map response_of (up_to_done ls)))))
   \<and> (endpoint rt (calls w) prompt =
         Streaming
           [Parsed (JObj [(''response'', JStr ''Hello '')]),
            Parsed (JObj [(''response'', JStr ''world'')]),
            Parsed (JObj [(''done'', JBool True)])] e
    \<longrightarrow> fst (call_ollama_api rt prompt w) = Inr ''Hello world'')"
proof (intro conjI impI)
  assume a: "endpoint rt (calls w) prompt = Streaming ls e
      \<and> (\<forall>l\<in>set ls. well_formed_fragment l) \<and> (e = Eof \<or> (\<exists>l\<in>set ls. is_done l))"
  then have "consume ls e [] = Inr ([] @ concat (map response_of (up_to_done ls)))"
    by (intro consume_well_formed) auto
  with a show "fst (call_ollama_api rt prompt w) =
      Inr (strip (concat (map response_of (up_to_done ls))))"
    by (simp add: fst_call_ollama_api receive_def)
next
  assume "endpoint rt (calls w) prompt =
         Streaming
           [Parsed (JObj [(''response'', JStr ''Hello '')]),
            Parsed (JObj [(''response'', JStr ''world'')]),
            Parsed (JObj [(''done'', JBool True)])] e"
  then show "fst (call_ollama_api rt prompt w) = Inr ''Hello world''"
    by (simp add: fst_call_ollama_api receive_def strip_def py_isspace_def)
qed

theorem client_concatenates_until_done_witness:
  "fst (call_ollama_api
      \<lparr>endpoint = \<lambda>k p. Streaming
          [Parsed (JObj [(''response'', JStr '' One'')]),
           Parsed (JObj [(''response'', JStr '' two ''), (''done'', JBool False)]),
           Parsed (JObj [(''response'', JStr ''three ''), (''done'', JBool True)]),
           Parsed (JObj [(''response'', JStr ''four'')])] Broken,
       csv_reader = \<lambda>t. [], timestamp = [], int_max_str_digits = 4300\<rparr>
      ''Count'' \<lparr>files = Map.empty, calls = 0\<rparr>) = Inr ''One two three''"
  using client_concatenates_until_done
    [of "\<lparr>endpoint = \<lambda>k p. Streaming
          [Parsed (JObj [(''response'', JStr '' One'')]),
           Parsed (JObj [(''response'', JStr '' two ''), (''done'', JBool False)]),
           Parsed (JObj [(''response'', JStr ''three ''), (''done'', JBool True)]),
           Parsed (JObj [(''response'', JStr ''four'')])] Broken,
       csv_reader = \<lambda>t. [], timestamp = [], int_max_str_digits = 4300\<rparr>"
        "\<lparr>files = Map.empty, calls = 0\<rparr>" "''Count''"
        "[Parsed (JObj [(''response'', JStr '' One'')]),
           Parsed (JObj [(''response'', JStr '' two ''), (''done'', JBool False)]),
           Parsed (JObj [(''response'', JStr ''three ''), (''done'', JBool True)]),
           Parsed (JObj [(''response'', JStr ''four'')])]" Broken]
  by (simp add: strip_def py_isspace_def)

text \<open>
  C3 (amended). A line on which \<open>json.loads\<close> raises \<open>JSONDecodeError\<close> is skipped and
  never ends the stream: the client returns what it returns for the stream with those
  lines removed. When every other line is a fragment as the interface describes it,
  the accumulated text is the concatenation, in order, of the \<open>response\<close> texts of the
  valid fragments (up to and including the first one with \<open>done\<close> true; all of them
  when only the last one has it). A line on which \<open>json.loads\<close> raises another
  exception, met before a fragment with \<open>done\<close> true, ends the client with that
  exception.
\<close>

theorem client_skips_malformed_fragments:
  "(endpoint rt (calls w) prompt = Streaming ls e \<longrightarrow>
      fst (call_ollama_api rt prompt w) =
        receive (Streaming (filter (\<lambda>l. l \<noteq> Malformed) ls) e))
   \<and> ((\<forall>l\<in>set ls. l = Malformed \<or> well_formed_fragment l)
        \<and> (e = Eof \<or> (\<exists>l\<in>set ls. is_done l)) \<longrightarrow>
      consume ls e [] =
        Inr (concat (map response_of (up_to_done (filter (\<lambda>l. l \<noteq> Malformed) ls)))))
   \<and> ((\<forall>l\<in>set ls. l = Malformed \<or> well_formed_fragment l)
        \<and> (\<forall>l\<in>set (butlast ls). \<not> is_done l)
        \<and> (e = Eof \<or> (ls \<noteq> [] \<and> is_done (last ls))) \<longrightarrow>
      consume ls e [] = Inr (concat (map response_of (filter (\<lambda>l. l \<noteq> Malformed) ls))))
   \<and> (endpoint rt (calls w) prompt = Streaming (pre @ Failing x # post) e
        \<and> (\<forall>l\<in>set pre. l = Blank \<or> l = Malformed \<or> (well_formed_fragment l \<and> \<not> is_done l))
      \<longrightarrow> fst (call_ollama_api rt prompt w) = Inl (Uncaught x))"
proof (intro conjI impI)
  assume "endpoint rt (calls w) prompt = Streaming ls e"
  then show "fst (call_ollama_api rt prompt w) =
      receive (Streaming (filter (\<lambda>l. l \<noteq> Malformed) ls) e)"
    by (simp add: fst_call_ollama_api receive_def consume_skips_malformed)
next
  assume a: "endpoint rt (calls w) prompt = Streaming (pre @ Failing x # post) e
        \<and> (\<forall>l\<in>set pre. l = Blank \<or> l = Malformed \<or> (well_formed_fragment l \<and> \<not> is_done l))"
  then have "consume (pre @ Failing x # post) e [] = Inl (Uncaught x)"
    by (intro consume_failing) simp
  with a show "fst (call_ollama_api rt prompt w) = Inl (Uncaught x)"
    by (simp add: fst_call_ollama_api receive_def)
next
  let ?vs = "filter (\<lambda>l. l \<noteq> Malformed) ls"
  assume a: "(\<forall>l\<in>set ls. l = Malformed \<or> well_formed_fragment l)
        \<and> (e = Eof \<or> (\<exists>l\<in>set ls. is_done l))"
  have "\<forall>l\<in>set ls. is_done l \<longrightarrow> l \<noteq> Malformed"
    by auto
  with a have "consume ?vs e [] = Inr ([] @ concat (map response_of (up_to_done ?vs)))"
    by (intro consume_well_formed) auto
  then show "consume ls e [] = Inr (concat (map response_of (up_to_done ?vs)))"
    by (simp add: consume_skips_malformed)
next
  let ?vs = "filter (\<lambda>l. l \<noteq> Malformed) ls"
  assume a: "(\<forall>l\<in>set ls. l = Malformed \<or> well_formed_fragment l)
        \<and> (\<forall>l\<in>set (butlast ls). \<not> is_done l)
        \<and> (e = Eof \<or> (ls \<noteq> [] \<and> is_done (last ls)))"
  have "\<forall>l\<in>set ls. is_done l \<longrightarrow> l \<noteq> Malformed"
    by auto
  moreover from a have "e = Eof \<or> (\<exists>l\<in>set ls. is_done l)"
    by auto
  ultimately have "consume ?vs e [] = Inr ([] @ concat (map response_of (up_to_done ?vs)))"
    using a by (intro consume_well_formed) auto
  moreover from a have "up_to_done ?vs = ?vs"
    by (intro up_to_done_filter) simp
  ultimately show "consume ls e [] = Inr (concat (map response_of ?vs))"
    by (simp add: consume_skips_malformed)
qed

theorem client_skips_malformed_fragments_witness:
  "fst (call_ollama_api
      \<lparr>endpoint = \<lambda>k p. Streaming
          [Parsed (JObj [(''response'', JStr ''Hello '')]), Malformed,
           Parsed (JObj [(''response'', JStr ''world'')]), Malformed,
           Parsed (JObj [(''done'', JBool True)])] Eof,
       csv_reader = \<lambda>t. [], timestamp = [], int_max_str_digits = 4300\<rparr>
      ''Say hello'' \<lparr>files = Map.empty, calls = 0\<rparr>) = Inr ''Hello world''
   \<and> consume
        [Parsed (JObj [(''response'', JStr ''Hello '')]), Malformed,
         Parsed (JObj [(''response'', JStr ''world'')]), Malformed,
         Parsed (JObj [(''done'', JBool True)])] Eof [] = Inr ''Hello world''
   \<and> fst (call_ollama_api
      \<lparr>endpoint = \<lambda>k p. Streaming
          [Parsed (JObj [(''response'', JStr ''Hello '')]), Malformed, Failing ValueError,
           Parsed (JObj [(''done'', JBool True)])] Eof,
       csv_reader = \<lambda>t. [], timestamp = [], int_max_str_digits = 4300\<rparr>
      ''Say hello'' \<lparr>files = Map.empty, calls = 0\<rparr>) = Inl (Uncaught ValueError)"
  using client_skips_malformed_fragments
    [of "\<lparr>endpoint = \<lambda>k p. Streaming
          [Parsed (JObj [(''response'', JStr ''Hello '')]), Malformed, Failing ValueError,
           Parsed (JObj [(''done'', JBool True)])] Eof,
       csv_reader = \<lambda>t. [], timestamp = [], int_max_str_digits = 4300\<rparr>"
        "\<lparr>files = Map.empty, calls = 0\<rparr>" "''Say hello''" _ "Eof"
        "[Parsed (JObj [(''response'', JStr ''Hello '')]), Malformed]" ValueError
        "[Parsed (JObj [(''done'', JBool True)])]", THEN conjunct2, THEN conjunct2, THEN conjunct2]
  using client_skips_malformed_fragments
    [of "\<lparr>endpoint = \<lambda>k p. Streaming
          [Parsed (JObj [(''response'', JStr ''Hello '')]), Malformed,
           Parsed (JObj [(''response'', JStr ''world'')]), Malformed,
           Parsed (JObj [(''done'', JBool True)])] Eof,
       csv_reader = \<lambda>t. [], timestamp = [], int_max_str_digits = 4300\<rparr>"
        "\<lparr>files = Map.empty, calls = 0\<rparr>" "''Say hello''"
        "[Parsed (JObj [(''response'', JStr ''Hello '')]), Malformed,
           Parsed (JObj [(''response'', JStr ''world'')]), Malformed,
           Parsed (JObj [(''done'', JBool True)])]" Eof]
  by (simp add: receive_def strip_def py_isspace_def)

text \<open>
  C3 as stated fails for a line that fails to parse with an exception other than
  \<open>JSONDecodeError\<close>, which line 67 does not catch (\<open>json.loads\<close> raises \<open>RecursionError\<close>
  on a line of 1100 opening brackets): between the fragments of \<open>Hello world\<close> such a
  line ends the client with the exception, and nothing is returned.
\<close>

theorem client_skips_malformed_fragments_counterexample:
  "fst (call_ollama_api
      \<lparr>endpoint = \<lambda>k p. Streaming
          [Parsed (JObj [(''response'', JStr ''Hello '')]), Failing RecursionError,
           Parsed (JObj [(''response'', JStr ''world'')]),
           Parsed (JObj [(''done'', JBool True)])] Eof,
       csv_reader = \<lambda>t. [], timestamp = [], int_max_str_digits = 4300\<rparr>
      ''Say hello'' \<lparr>files = Map.empty, calls = 0\<rparr>) = Inl (Uncaught RecursionError)
   \<and> fst (call_ollama_api
      \<lparr>endpoint = \<lambda>k p. Streaming
          [Parsed (JObj [(''response'', JStr ''Hello '')]),
           Parsed (JObj [(''response'', JStr ''world'')]),
           Parsed (JObj [(''done'', JBool True)])] Eof,
       csv_reader = \<lambda>t. [], timestamp = [], int_max_str_digits = 4300\<rparr>
      ''Say hello'' \<lparr>files = Map.empty, calls = 0\<rparr>) = Inr ''Hello world''"
  by (simp add: fst_call_ollama_api receive_def strip_def py_isspace_def)

text \<open>
  C10. When the stream ends normally and no fragment has \<open>done\<close> true (the lines being
  empty, unparsable or fragments as the interface describes them), the client returns
  the trimmed concatenation of the \<open>response\<close> texts received; for a stream with no line
  at all it returns the empty text. The client is a total function of a finite stream.
\<close>

theorem client_returns_when_stream_ends:
  "(endpoint rt (calls w) prompt = Streaming ls Eof
      \<and> (\<forall>l\<in>set ls. l = Blank \<or> l = Malformed \<or> well_formed_fragment l)
      \<and> (\<forall>l\<in>set ls. \<not> is_done l)
    \<longrightarrow> fst (call_ollama_api rt prompt w) = Inr (strip (concat (map response_of ls))))
   \<and> (endpoint rt (calls w) prompt = Streaming [] Eof
    \<longrightarrow> fst (call_ollama_api rt prompt w) = Inr [])"
proof (intro conjI impI)
  assume a: "endpoint rt (calls w) prompt = Streaming ls Eof
      \<and> (\<forall>l\<in>set ls. l = Blank \<or> l = Malformed \<or> well_formed_fragment l)
      \<and> (\<forall>l\<in>set ls. \<not> is_done l)"
  then have "consume ls Eof [] = Inr ([] @ concat (map response_of (up_to_done ls)))"
    by (intro consume_well_formed) auto
  moreover from a have "up_to_done ls = ls"
    by (intro up_to_done_no_done) simp
  ultimately show "fst (call_ollama_api rt prompt w) = Inr (strip (concat (map response_of ls)))"
    using a by (simp add: fst_call_ollama_api receive_def)
next
  assume "endpoint rt (calls w) prompt = Streaming [] Eof"
  then show "fst (call_ollama_api rt prompt w) = Inr []"
    by (simp add: fst_call_ollama_api receive_def strip_def)
qed

theorem client_returns_when_stream_ends_witness:
  "fst (call_ollama_api
      \<lparr>endpoint = \<lambda>k p.
          if k = 0 then Streaming
            [Parsed (JObj [(''response'', JStr ''Hello '')]), Blank,
             Parsed (JObj [(''response'', JStr ''world ''), (''done'', JBool False)])] Eof
          else Streaming [] Eof,
       csv_reader = \<lambda>t. [], timestamp = [], int_max_str_digits = 4300\<rparr>
      ''Say hello'' \<lparr>files = Map.empty, calls = 0\<rparr>) = Inr ''Hello world''
   \<and> fst (call_ollama_api
      \<lparr>endpoint = \<lambda>k p.
          if k = 0 then Streaming
            [Parsed (JObj [(''response'', JStr ''Hello '')]), Blank,
             Parsed (JObj [(''response'', JStr ''world ''), (''done'', JBool False)])] Eof
          else Streaming [] Eof,
       csv_reader = \<lambda>t. [], timestamp = [], int_max_str_digits = 4300\<rparr>
      ''Say hello'' \<lparr>files = Map.empty, calls = 1\<rparr>) = Inr []"
  using client_returns_when_stream_ends
    [of "\<lparr>endpoint = \<lambda>k p.
          if k = 0 then Streaming
            [Parsed (JObj [(''response'', JStr ''Hello '')]), Blank,
             Parsed (JObj [(''response'', JStr ''world ''), (''done'', JBool False)])] Eof
          else Streaming [] Eof,
       csv_reader = \<lambda>t. [], timestamp = [], int_max_str_digits = 4300\<rparr>"
        "\<lparr>files = Map.empty, calls = 0\<rparr>" "''Say hello''"
        "[Parsed (JObj [(''response'', JStr ''Hello '')]), Blank,
             Parsed (JObj [(''response'', JStr ''world ''), (''done'', JBool False)])]"]
    client_returns_when_stream_ends
    [of "\<lparr>endpoint = \<lambda>k p.
          if k = 0 then Streaming
            [Parsed (JObj [(''response'', JStr ''Hello '')]), Blank,
             Parsed (JObj [(''response'', JStr ''world ''), (''done'', JBool False)])] Eof
          else Streaming [] Eof,
       csv_reader = \<lambda>t. [], timestamp = [], int_max_str_digits = 4300\<rparr>"
        "\<lparr>files = Map.empty, calls = 1\<rparr>" "''Say hello''" "[]"]
  by (simp add: strip_def py_isspace_def)

section \<open>Properties of the word counter\<close>

lemma fst_count_words_with_ollama:
  "fst (call_ollama_api rt (count_prompt text) w) = Inr response \<Longrightarrow>
     fst (count_words_with_ollama rt text w) =
       Inr (extract_count (int_max_str_digits rt) response)"
  by (cases "call_ollama_api rt (count_prompt text) w")
     (auto simp: count_words_with_ollama_def)

lemma extract_count_decimal:
  assumes "filter py_isdigit r \<noteq> []" and "\<forall>c\<in>set r. py_isdigit c \<longrightarrow> py_isdecimal c"
      and "limit = 0 \<or> length (filter py_isdigit r) \<le> limit"
  shows "extract_count limit r = decimal_value (filter py_isdigit r)"
proof -
  have "list_all py_isdecimal (filter py_isdigit r)"
    using assms(2) by (simp add: list_all_iff)
  with assms(1,3) show ?thesis
    by (auto simp: extract_count_def py_int_def)
qed

lemma extract_count_no_digit:
  "\<forall>c\<in>set r. \<not> py_isdigit c \<Longrightarrow> extract_count limit r = 0"
  by (simp add: extract_count_def py_int_def filter_False)

lemma extract_count_example:
  "limit = 0 \<or> 640 \<le> limit \<Longrightarrow> extract_count limit ''The text contains 42 words.'' = 42"
  by (auto simp: extract_count_def py_int_def py_isdigit_def py_isdecimal_def
      decimal_value_def digit_value_def)

text \<open>
  C4. The word counter keeps the digit characters (\<open>str.isdigit\<close>) of the client's
  response, in order, and reads them as a decimal integer: when they are decimal digits,
  at least one and no more than the interpreter's limit, the count is their decimal
  value. For the response \<open>The text contains 42 words.\<close> the count is 42, and for a
  response with no digit character the count is 0, with no error.
\<close>

theorem word_counter_extracts_digits:
  "(fst (call_ollama_api rt (count_prompt text) w) = Inr response
      \<and> filter py_isdigit response \<noteq> []
      \<and> (\<forall>c\<in>set response. py_isdigit c \<longrightarrow> py_isdecimal c)
      \<and> (int_max_str_digits rt = 0 \<or> length (filter py_isdigit response) \<le> int_max_str_digits rt)
    \<longrightarrow> fst (count_words_with_ollama rt text w) =
          Inr (decimal_value (filter py_isdigit response)))
   \<and> (fst (call_ollama_api rt (count_prompt text) w) = Inr ''The text contains 42 words.''
      \<and> (int_max_str_digits rt = 0 \<or> 640 \<le> int_max_str_digits rt)
    \<longrightarrow> fst (count_words_with_ollama rt text w) = Inr 42)
   \<and> (fst (call_ollama_api rt (count_prompt text) w) = Inr response
      \<and> (\<forall>c\<in>set response. \<not> py_isdigit c)
    \<longrightarrow> fst (count_words_with_ollama rt text w) = Inr 0)"
  by (auto simp: fst_count_words_with_ollama extract_count_decimal extract_count_no_digit
      extract_count_example)

theorem word_counter_extracts_digits_witness:
  "fst (count_words_with_ollama
      \<lparr>endpoint = \<lambda>k p.
          if k = 0 then Streaming
            [Parsed (JObj [(''response'', JStr ''About 1,2'')]),
             Parsed (JObj [(''response'', JStr ''50 words.''), (''done'', JBool True)])] Eof
          else Streaming [Parsed (JObj [(''response'', JStr ''Many.'')])] Eof,
       csv_reader = \<lambda>t. [], timestamp = [], int_max_str_digits = 4300\<rparr>
      ''Once upon a time'' \<lparr>files = Map.empty, calls = 0\<rparr>) = Inr 1250
   \<and> fst (count_words_with_ollama
      \<lparr>endpoint = \<lambda>k p.
          if k = 0 then Streaming
            [Parsed (JObj [(''response'', JStr ''About 1,2'')]),
             Parsed (JObj [(''response'', JStr ''50 words.''), (''done'', JBool True)])] Eof
          else Streaming [Parsed (JObj [(''response'', JStr ''Many.'')])] Eof,
       csv_reader = \<lambda>t. [], timestamp = [], int_max_str_digits = 4300\<rparr>
      ''Once upon a time'' \<lparr>files = Map.empty, calls = 1\<rparr>) = Inr 0"
  using word_counter_extracts_digits
    [of "\<lparr>endpoint = \<lambda>k p.
          if k = 0 then Streaming
            [Parsed (JObj [(''response'', JStr ''About 1,2'')]),
             Parsed (JObj [(''response'', JStr ''50 words.''), (''done'', JBool True)])] Eof
          else Streaming [Parsed (JObj [(''response'', JStr ''Many.'')])] Eof,
       csv_reader = \<lambda>t. [], timestamp = [], int_max_str_digits = 4300\<rparr>"
      "''Once upon a time''" "\<lparr>files = Map.empty, calls = 0\<rparr>" "''About 1,250 words.''"]
    word_counter_extracts_digits
    [of "\<lparr>endpoint = \<lambda>k p.
          if k = 0 then Streaming
            [Parsed (JObj [(''response'', JStr ''About 1,2'')]),
             Parsed (JObj [(''response'', JStr ''50 words.''), (''done'', JBool True)])] Eof
          else Streaming [Parsed (JObj [(''response'', JStr ''Many.'')])] Eof,
       csv_reader = \<lambda>t. [], timestamp = [], int_max_str_digits = 4300\<rparr>"
      "''Once upon a time''" "\<lparr>files = Map.empty, calls = 1\<rparr>" "''Many.''"]
  by (simp add: fst_call_ollama_api receive_def strip_def py_isspace_def
      py_isdigit_def py_isdecimal_def decimal_value_def digit_value_def)

section \<open>Properties of the heading converter\<close>

lemma match_literal_Some: "match_literal p s = Some r \<longleftrightarrow> s = p @ r"
  by (induction p s rule: match_literal.induct) auto

lemma not_decimal_colon: "\<not> py_isdecimal CHR '':''"
  by (simp add: py_isdecimal_def)

lemma not_decimal_NL: "\<not> py_isdecimal NL"
  by (simp add: py_isdecimal_def)

lemma match_heading_complete:
  assumes "n \<noteq> []" and "\<forall>c\<in>set n. py_isdecimal c" and "t \<noteq> []" and "hd t \<noteq> NL"
  shows "match_heading (''### Chapter '' @ n @ '': '' @ t @ rest) =
           Some (n, takeWhile (\<lambda>c. c \<noteq> NL) (t @ rest), dropWhile (\<lambda>c. c \<noteq> NL) (t @ rest))"
proof -
  let ?s1 = "n @ '': '' @ t @ rest"
  have lit: "match_literal ''### Chapter '' (''### Chapter '' @ ?s1) = Some ?s1"
    by (simp only: match_literal_Some)
  have tw: "takeWhile py_isdecimal ?s1 = n"
    using assms(2) not_decimal_colon by (simp add: takeWhile_append2)
  have dw: "dropWhile py_isdecimal ?s1 = '': '' @ t @ rest"
    using assms(2) not_decimal_colon by (simp add: dropWhile_append2)
  have lit2: "match_literal '': '' ('': '' @ t @ rest) = Some (t @ rest)"
    by (simp only: match_literal_Some)
  have ne: "takeWhile (\<lambda>c. c \<noteq> NL) (t @ rest) \<noteq> []"
    using assms(3,4) by (cases t) auto
  show ?thesis
    unfolding match_heading_def lit option.case tw dw lit2
    using assms(1) ne by simp
qed

lemma match_heading_line:
  assumes "n \<noteq> []" and "\<forall>c\<in>set n. py_isdecimal c" and "t \<noteq> []" and "NL \<notin> set t"
      and "rest = [] \<or> hd rest = NL"
  shows "match_heading (''### Chapter '' @ n @ '': '' @ t @ rest) = Some (n, t, rest)"
proof -
  have "hd t \<noteq> NL"
    using assms(3,4) by (cases t) auto
  moreover have "takeWhile (\<lambda>c. c \<noteq> NL) (t @ rest) = t"
    using assms(4,5) by (cases rest) (auto simp: takeWhile_tail takeWhile_eq_all_conv)
  moreover have "dropWhile (\<lambda>c. c \<noteq> NL) (t @ rest) = rest"
    using assms(4,5) by (cases rest) (auto simp: dropWhile_append3 dropWhile_eq_Nil_conv)
  ultimately show ?thesis
    using match_heading_complete [OF assms(1,2,3), of rest] by simp
qed

lemma match_heading_sound:
  assumes "match_heading s = Some (n, t, r)"
  shows "s = ''### Chapter '' @ n @ '': '' @ t @ r \<and> n \<noteq> [] \<and> (\<forall>c\<in>set n. py_isdecimal c)
           \<and> t \<noteq> [] \<and> NL \<notin> set t \<and> (r = [] \<or> hd r = NL)"
proof -
  from assms obtain s1 s3 where
    s1: "match_literal ''### Chapter '' s = Some s1" and
    n: "n = takeWhile py_isdecimal s1" "n \<noteq> []" and
    s3: "match_literal '': '' (dropWhile py_isdecimal s1) = Some s3" and
    t: "t = takeWhile (\<lambda>c. c \<noteq> NL) s3" "t \<noteq> []" and
    r: "r = dropWhile (\<lambda>c. c \<noteq> NL) s3"
    unfolding match_heading_def by (auto split: option.splits if_splits)
  have "s = ''### Chapter '' @ s1"
    using s1 by (simp only: match_literal_Some)
  moreover have "s1 = n @ dropWhile py_isdecimal s1"
    using n by simp
  moreover have "dropWhile py_isdecimal s1 = '': '' @ s3"
    using s3 by (simp only: match_literal_Some)
  moreover have "s3 = t @ r"
    using t r by simp
  ultimately have "s = ''### Chapter '' @ n @ '': '' @ t @ r"
    by (metis append_assoc)
  moreover have "\<forall>c\<in>set n. py_isdecimal c"
    using n by (auto dest: set_takeWhileD)
  moreover have "NL \<notin> set t"
    using t by (auto dest: set_takeWhileD)
  moreover have "r = [] \<or> hd r = NL"
    using r hd_dropWhile [of "\<lambda>c. c \<noteq> NL" s3] by auto
  ultimately show ?thesis
    using n t by simp
qed


lemma match_literal_line:
  assumes "NL \<notin> set p" and "x \<noteq> []" and "last x = NL"
  shows "match_literal p (x @ s) = map_option (\<lambda>r. r @ s) (match_literal p x)"
  using assms
proof (induction p x rule: match_literal.induct)
  case (1 x)
  then show ?case by simp
next
  case (2 p ps)
  then show ?case by simp
next
  case (3 p ps c cs)
  show ?case
  proof (cases "p = c")
    case True
    with 3 have "cs \<noteq> []"
      by auto
    with 3 True show ?thesis
      by simp
  next
    case False
    then show ?thesis by simp
  qed
qed

lemma match_literal_rest_line:
  assumes "match_literal p x = Some r" and "NL \<notin> set p" and "x \<noteq> []" and "last x = NL"
  shows "r \<noteq> [] \<and> last r = NL"
proof -
  from assms(1) have x: "x = p @ r"
    by (simp only: match_literal_Some)
  have "r \<noteq> []"
  proof
    assume "r = []"
    with x assms(3,4) have "NL \<in> set p"
      by (metis append_Nil2 last_in_set)
    with assms(2) show False by simp
  qed
  with x assms(4) show ?thesis
    by simp
qed

lemma dropWhile_line:
  assumes "\<not> P NL" and "x \<noteq> []" and "last x = NL"
  shows "dropWhile P x \<noteq> [] \<and> last (dropWhile P x) = NL
         \<and> takeWhile P (x @ s) = takeWhile P x \<and> dropWhile P (x @ s) = dropWhile P x @ s"
proof -
  have mem: "NL \<in> set x"
    using assms(2,3) last_in_set by metis
  with assms(1) have ne: "dropWhile P x \<noteq> []"
    by (auto simp: dropWhile_eq_Nil_conv)
  have "x = takeWhile P x @ dropWhile P x"
    by simp
  with ne have "last x = last (dropWhile P x)"
    by (metis last_appendR)
  with ne assms(3) mem assms(1) show ?thesis
    by (simp add: takeWhile_append1 dropWhile_append1)
qed

lemma match_heading_append:
  assumes "x \<noteq> []" and "last x = NL"
  shows "match_heading (x @ s) = map_option (\<lambda>(n, t, r). (n, t, r @ s)) (match_heading x)"
proof (cases "match_literal ''### Chapter '' x")
  case None
  with assms show ?thesis
    by (simp add: match_heading_def match_literal_line)
next
  case (Some s1)
  with assms have s1: "s1 \<noteq> [] \<and> last s1 = NL"
    by (intro match_literal_rest_line [of "''### Chapter ''" x]) auto
  have l1: "match_literal ''### Chapter '' (x @ s) = Some (s1 @ s)"
    using assms Some by (simp add: match_literal_line)
  have d1: "dropWhile py_isdecimal s1 \<noteq> [] \<and> last (dropWhile py_isdecimal s1) = NL
      \<and> takeWhile py_isdecimal (s1 @ s) = takeWhile py_isdecimal s1
      \<and> dropWhile py_isdecimal (s1 @ s) = dropWhile py_isdecimal s1 @ s"
    using s1 by (intro dropWhile_line) (auto simp: not_decimal_NL)
  show ?thesis
  proof (cases "match_literal '': '' (dropWhile py_isdecimal s1)")
    case None
    with d1 have "match_literal '': '' (dropWhile py_isdecimal s1 @ s) = None"
      by (simp add: match_literal_line)
    with None Some l1 d1 show ?thesis
      by (simp add: match_heading_def)
  next
    case s3: (Some s3)
    with d1 have s3': "s3 \<noteq> [] \<and> last s3 = NL"
      by (intro match_literal_rest_line [of "'': ''" "dropWhile py_isdecimal s1"]) auto
    have l2: "match_literal '': '' (dropWhile py_isdecimal s1 @ s) = Some (s3 @ s)"
      using d1 s3 by (simp add: match_literal_line)
    have d2: "takeWhile (\<lambda>c. c \<noteq> NL) (s3 @ s) = takeWhile (\<lambda>c. c \<noteq> NL) s3
      \<and> dropWhile (\<lambda>c. c \<noteq> NL) (s3 @ s) = dropWhile (\<lambda>c. c \<noteq> NL) s3 @ s"
      using s3' dropWhile_line [of "\<lambda>c. c \<noteq> NL" s3 s] by simp
    show ?thesis
      using Some l1 d1 s3 l2 d2 by (simp add: match_heading_def)
  qed
qed

lemma match_heading_rest_line:
  assumes "match_heading x = Some (n, t, r)" and "x \<noteq> []" and "last x = NL"
  shows "r \<noteq> [] \<and> last r = NL"
proof -
  from match_heading_sound [OF assms(1)]
  have x: "x = ''### Chapter '' @ n @ '': '' @ t @ r" and t: "NL \<notin> set t" "t \<noteq> []"
    by auto
  have "r \<noteq> []"
  proof
    assume "r = []"
    with x t have "last x = last t"
      by simp
    with t assms(3) show False
      using last_in_set by metis
  qed
  with x assms(3) show ?thesis
    by (metis append_is_Nil_conv last_appendR)
qed

lemma re_sub_line:
  "x = [] \<or> last x = NL \<Longrightarrow> re_sub (x @ s) = re_sub x @ re_sub s"
proof (induction x rule: re_sub.induct)
  case 1
  then show ?case by simp
next
  case (2 c cs)
  then have x: "c # cs \<noteq> []" "last (c # cs) = NL"
    by auto
  show ?case
  proof (cases "match_heading (c # cs)")
    case None
    then have "match_heading ((c # cs) @ s) = None"
      using match_heading_append [OF x, of s] by simp
    then have "re_sub ((c # cs) @ s) = c # re_sub (cs @ s)"
      by simp
    moreover have "cs = [] \<or> last cs = NL"
      using x by (cases cs) auto
    then have "re_sub (cs @ s) = re_sub cs @ re_sub s"
      using None "2.IH" by blast
    ultimately show ?thesis
      using None by simp
  next
    case (Some m)
    then obtain n t r where m: "match_heading (c # cs) = Some (n, t, r)"
      by (cases m) auto
    then have "match_heading ((c # cs) @ s) = Some (n, t, r @ s)"
      using match_heading_append [OF x, of s] by simp
    then have "re_sub ((c # cs) @ s) = latex_chapter t @ re_sub (r @ s)"
      by simp
    moreover have "r \<noteq> [] \<and> last r = NL"
      using match_heading_rest_line [OF m x] .
    then have "re_sub (r @ s) = re_sub r @ re_sub s"
      using m "2.IH" by blast
    ultimately show ?thesis
      using m by simp
  qed
qed

lemma re_sub_prefix:
  assumes "\<not> (\<exists>p n t r. pre @ s = p @ ''### Chapter '' @ n @ '': '' @ t @ r \<and> length p < length pre
              \<and> n \<noteq> [] \<and> (\<forall>c\<in>set n. py_isdecimal c) \<and> t \<noteq> [] \<and> hd t \<noteq> NL)"
  shows "re_sub (pre @ s) = pre @ re_sub s"
  using assms
proof (induction pre)
  case Nil
  then show ?case by simp
next
  case (Cons c pre)
  have "match_heading (c # pre @ s) = None"
  proof (cases "match_heading (c # pre @ s)")
    case None
    then show ?thesis .
  next
    case (Some m)
    then obtain n t r where m: "match_heading (c # pre @ s) = Some (n, t, r)"
      by (cases m) auto
    from match_heading_sound [OF m]
    have "(c # pre) @ s = [] @ ''### Chapter '' @ n @ '': '' @ t @ r \<and> length ([]::string) < length (c # pre)
              \<and> n \<noteq> [] \<and> (\<forall>c\<in>set n. py_isdecimal c) \<and> t \<noteq> [] \<and> hd t \<noteq> NL"
      by (cases t) auto
    with Cons.prems show ?thesis
      by blast
  qed
  moreover have "re_sub (pre @ s) = pre @ re_sub s"
  proof (rule Cons.IH, rule notI)
    assume "\<exists>p n t r. pre @ s = p @ ''### Chapter '' @ n @ '': '' @ t @ r \<and> length p < length pre
              \<and> n \<noteq> [] \<and> (\<forall>c\<in>set n. py_isdecimal c) \<and> t \<noteq> [] \<and> hd t \<noteq> NL"
    then obtain p n t r where
      "pre @ s = p @ ''### Chapter '' @ n @ '': '' @ t @ r" "length p < length pre"
      "n \<noteq> []" "\<forall>c\<in>set n. py_isdecimal c" "t \<noteq> []" "hd t \<noteq> NL"
      by blast
    then have "(c # pre) @ s = (c # p) @ ''### Chapter '' @ n @ '': '' @ t @ r
        \<and> length (c # p) < length (c # pre)
        \<and> n \<noteq> [] \<and> (\<forall>c\<in>set n. py_isdecimal c) \<and> t \<noteq> [] \<and> hd t \<noteq> NL"
      by simp
    with Cons.prems show False
      by blast
  qed
  ultimately show ?case
    by simp
qed

lemma re_sub_heading:
  assumes "n \<noteq> []" and "\<forall>c\<in>set n. py_isdecimal c" and "t \<noteq> []" and "NL \<notin> set t"
      and "rest = [] \<or> hd rest = NL"
  shows "re_sub (''### Chapter '' @ n @ '': '' @ t @ rest) = latex_chapter t @ re_sub rest"
proof -
  have "re_sub (CHR ''#'' # ''## Chapter '' @ n @ '': '' @ t @ rest) =
      (case match_heading (CHR ''#'' # ''## Chapter '' @ n @ '': '' @ t @ rest) of
         Some (number, title, r) \<Rightarrow> latex_chapter title @ re_sub r
       | None \<Rightarrow> CHR ''#'' # re_sub (''## Chapter '' @ n @ '': '' @ t @ rest))"
    by (rule re_sub.simps(2))
  moreover have "match_heading (CHR ''#'' # ''## Chapter '' @ n @ '': '' @ t @ rest) = Some (n, t, rest)"
    using match_heading_line [OF assms] by simp
  ultimately show ?thesis
    by simp
qed

lemma no_hash_no_heading:
  assumes "CHR ''#'' \<notin> set pre"
  shows "\<not> (\<exists>p n t r. pre @ s = p @ ''### Chapter '' @ n @ '': '' @ t @ r \<and> length p < length pre
              \<and> n \<noteq> [] \<and> (\<forall>c\<in>set n. py_isdecimal c) \<and> t \<noteq> [] \<and> hd t \<noteq> NL)"
proof
  assume "\<exists>p n t r. pre @ s = p @ ''### Chapter '' @ n @ '': '' @ t @ r \<and> length p < length pre
              \<and> n \<noteq> [] \<and> (\<forall>c\<in>set n. py_isdecimal c) \<and> t \<noteq> [] \<and> hd t \<noteq> NL"
  then obtain p n t r where
    eq: "pre @ s = p @ ''### Chapter '' @ n @ '': '' @ t @ r" and len: "length p < length pre"
    by blast
  from eq have "(pre @ s) ! length p = (p @ ''### Chapter '' @ n @ '': '' @ t @ r) ! length p"
    by simp
  with len have "pre ! length p = CHR ''#''"
    by (simp add: nth_append)
  with len assms show False
    by (metis nth_mem)
qed




section \<open>The writer and the converter\<close>

lemma write_chapter_to_book_appends:
  assumes "fst (call_ollama_api rt
      (chapter_prompt n t outline current summary) w) = Inr body"
  shows "fst (write_chapter_to_book rt n t outline current summary w) = None
     \<and> files (snd (write_chapter_to_book rt n t outline current summary w)) =
         (files w)(''book.txt'' \<mapsto>
            transcript (files w) @ chapter_block n t body)
     \<and> calls (snd (write_chapter_to_book rt n t outline current summary w)) = Suc (calls w)"
  using assms
  by (cases "files w ''book.txt''")
     (auto simp: write_chapter_to_book_def call_ollama_api_def append_file_def
      chapter_block_def transcript_def split: sum.splits)

text \<open>
  C9 (amended). The chapter writer appends to the transcript the block
  \<open>chapter_block n t body\<close>. For a chapter number \<open>n\<close> of decimal digits, not empty, and a
  title \<open>t\<close> that is not empty and holds no line break, the converter's substitution
  on a transcript ending in that block replaces the block's heading with
  \<open>\chapter{t}\<close>; what precedes the block and the body are converted on their own.
\<close>

theorem writer_heading_is_converted:
  "(fst (call_ollama_api rt (chapter_prompt n t outline current summary) w) = Inr body
    \<longrightarrow> files (snd (write_chapter_to_book rt n t outline current summary w)) ''book.txt'' =
          Some (transcript (files w) @ chapter_block n t body))
   \<and> (n \<noteq> [] \<and> (\<forall>c\<in>set n. py_isdecimal c) \<and> t \<noteq> [] \<and> NL \<notin> set t
      \<and> (book = [] \<or> last book = NL)
    \<longrightarrow> re_sub (book @ chapter_block n t body) =
          re_sub book @ [NL, NL] @ latex_chapter t @ re_sub ([NL, NL] @ body @ [NL]))"
proof (intro conjI impI)
  assume "fst (call_ollama_api rt (chapter_prompt n t outline current summary) w) = Inr body"
  from write_chapter_to_book_appends [OF this]
  show "files (snd (write_chapter_to_book rt n t outline current summary w)) ''book.txt'' =
          Some (transcript (files w) @ chapter_block n t body)"
    by simp
next
  assume a: "n \<noteq> [] \<and> (\<forall>c\<in>set n. py_isdecimal c) \<and> t \<noteq> [] \<and> NL \<notin> set t
      \<and> (book = [] \<or> last book = NL)"
  have "re_sub ((book @ [NL, NL]) @ ''### Chapter '' @ n @ '': '' @ t @ (NL # NL # body @ [NL])) =
      re_sub (book @ [NL, NL]) @ re_sub (''### Chapter '' @ n @ '': '' @ t @ (NL # NL # body @ [NL]))"
    by (rule re_sub_line) simp
  moreover have "re_sub (''### Chapter '' @ n @ '': '' @ t @ (NL # NL # body @ [NL])) =
      latex_chapter t @ re_sub (NL # NL # body @ [NL])"
    using a by (intro re_sub_heading) auto
  moreover have "re_sub (book @ [NL, NL]) = re_sub book @ re_sub [NL, NL]"
    using a by (intro re_sub_line) simp
  moreover have "re_sub [NL, NL] = [NL, NL]"
    by (simp add: match_heading_def)
  ultimately show "re_sub (book @ chapter_block n t body) =
          re_sub book @ [NL, NL] @ latex_chapter t @ re_sub ([NL, NL] @ body @ [NL])"
    by (simp add: chapter_block_def chapter_heading_def)
qed

theorem writer_heading_is_converted_witness:
  "files (snd (write_chapter_to_book
      \<lparr>endpoint = \<lambda>k p. Streaming
          [Parsed (JObj [(''response'', JStr ''It rained.''), (''done'', JBool True)])] Eof,
       csv_reader = \<lambda>t. [], timestamp = [], int_max_str_digits = 4300\<rparr>
      ''3'' ''The Storm'' ''A storm.'' [] ''A book.''
      \<lparr>files = Map.empty, calls = 0\<rparr>)) ''book.txt'' =
     Some (chapter_block ''3'' ''The Storm'' ''It rained.'')
   \<and> re_sub (chapter_block ''3'' ''The Storm'' ''It rained.'') =
       [NL, NL] @ BACKSLASH # ''chapter{The Storm}'' @ [NL, NL] @ ''It rained.'' @ [NL]"
proof -
  have body: "re_sub ([NL, NL] @ ''It rained.'' @ [NL]) = [NL, NL] @ ''It rained.'' @ [NL]"
    using re_sub_prefix [of "[NL, NL] @ ''It rained.'' @ [NL]" "[]"]
      no_hash_no_heading [of "[NL, NL] @ ''It rained.'' @ [NL]" "[]"]
    by simp
  show ?thesis
    using writer_heading_is_converted
      [of "\<lparr>endpoint = \<lambda>k p. Streaming
          [Parsed (JObj [(''response'', JStr ''It rained.''), (''done'', JBool True)])] Eof,
       csv_reader = \<lambda>t. [], timestamp = [], int_max_str_digits = 4300\<rparr>"
        "''3''" "''The Storm''" "''A storm.''" "[]" "''A book.''"
        "\<lparr>files = Map.empty, calls = 0\<rparr>" "''It rained.''" "[]"] body
    by (simp add: fst_call_ollama_api receive_def strip_def py_isspace_def py_isdecimal_def
        latex_chapter_def transcript_def)
qed

text \<open>
  C9 as stated fails for a title with a line break (a quoted field of the outline may
  hold one): the converter's \<open>.+\<close> stops at the end of the line, so the chapter command
  holds the first line of the title only.
\<close>

theorem writer_heading_is_converted_counterexample:
  "''3'' \<noteq> [] \<and> list_all py_isdecimal ''3''
   \<and> ''The'' @ [NL] @ ''Storm'' \<noteq> [] \<and> strip (''The'' @ [NL] @ ''Storm'') = ''The'' @ [NL] @ ''Storm''
   \<and> re_sub (chapter_block ''3'' (''The'' @ [NL] @ ''Storm'') ''It rained.'') =
       [NL, NL] @ BACKSLASH # ''chapter{The}'' @ [NL] @ ''Storm'' @ [NL, NL] @ ''It rained.'' @ [NL]
   \<and> re_sub (chapter_block ''3'' (''The'' @ [NL] @ ''Storm'') ''It rained.'') \<noteq>
       [NL, NL] @ latex_chapter (''The'' @ [NL] @ ''Storm'')
       @ re_sub ([NL, NL] @ ''It rained.'' @ [NL])"
proof -
  have tail: "re_sub (NL # ''Storm'' @ [NL, NL] @ ''It rained.'' @ [NL]) =
      NL # ''Storm'' @ [NL, NL] @ ''It rained.'' @ [NL]"
    using re_sub_prefix [of "NL # ''Storm'' @ [NL, NL] @ ''It rained.'' @ [NL]" "[]"]
      no_hash_no_heading [of "NL # ''Storm'' @ [NL, NL] @ ''It rained.'' @ [NL]" "[]"]
    by simp
  have body: "re_sub ([NL, NL] @ ''It rained.'' @ [NL]) = [NL, NL] @ ''It rained.'' @ [NL]"
    using re_sub_prefix [of "[NL, NL] @ ''It rained.'' @ [NL]" "[]"]
      no_hash_no_heading [of "[NL, NL] @ ''It rained.'' @ [NL]" "[]"]
    by simp
  have head: "re_sub ([NL, NL] @ ''### Chapter '' @ ''3'' @ '': '' @ ''The''
        @ (NL # ''Storm'' @ [NL, NL] @ ''It rained.'' @ [NL])) =
      re_sub [NL, NL] @ latex_chapter ''The''
        @ re_sub (NL # ''Storm'' @ [NL, NL] @ ''It rained.'' @ [NL])"
    using re_sub_line [of "[NL, NL]"
        "''### Chapter '' @ ''3'' @ '': '' @ ''The'' @ (NL # ''Storm'' @ [NL, NL] @ ''It rained.'' @ [NL])"]
      re_sub_heading [of "''3''" "''The''" "NL # ''Storm'' @ [NL, NL] @ ''It rained.'' @ [NL]"]
    by (simp add: py_isdecimal_def)
  have nn: "re_sub [NL, NL] = [NL, NL]"
    by (simp add: match_heading_def)
  from tail body head nn show ?thesis
    by (simp add: chapter_block_def chapter_heading_def latex_chapter_def py_isdecimal_def
        strip_def py_isspace_def)
qed

section \<open>Properties of the driver\<close>

lemma archive_name_distinct:
  "archive_name ts \<noteq> ''book.txt''" "archive_name ts \<noteq> ''input.txt''"
  "archive_name ts \<noteq> ''outline.txt''"
  by (simp_all add: archive_name_def)

lemma archive_existing_files:
  "archive_existing rt f ''input.txt'' = f ''input.txt''"
  "archive_existing rt f ''outline.txt'' = f ''outline.txt''"
  "archive_existing rt f ''book.txt'' = None"
  "f ''book.txt'' = Some old \<Longrightarrow> archive_existing rt f (archive_name (timestamp rt)) = Some old"
  using archive_name_distinct [of "timestamp rt"]
  by (auto simp: archive_existing_def rename_file_def)

lemma archive_existing_eq:
  "f ''book.txt'' = Some old \<Longrightarrow>
     archive_existing rt f = (f(''book.txt'' := None))(archive_name (timestamp rt) \<mapsto> old)"
  by (simp add: archive_existing_def rename_file_def)

text \<open>
  C8. The transcript is archived before the input files are read: when the run stops
  because the book summary or the outline is missing or empty, no request has been
  sent, and a transcript that existed has already been renamed to its archive name, so
  the files are not what they were.
\<close>

theorem archive_precedes_validation:
  "f ''book.txt'' = Some old
   \<and> (f ''input.txt'' = None
      \<or> (\<exists>raw. f ''input.txt'' = Some raw \<and> strip raw = [])
      \<or> f ''outline.txt'' = None
      \<or> (\<exists>outline. f ''outline.txt'' = Some outline \<and> load_chapters (csv_reader rt outline) = []))
   \<longrightarrow> (fst (main rt f) = Some (SysExit 0) \<or> fst (main rt f) = Some (SysExit 1))
       \<and> calls (snd (main rt f)) = 0
       \<and> files (snd (main rt f)) =
           (f(''book.txt'' := None))(archive_name (timestamp rt) \<mapsto> old)
       \<and> files (snd (main rt f)) ''book.txt'' = None
       \<and> files (snd (main rt f)) (archive_name (timestamp rt)) = Some old
       \<and> files (snd (main rt f)) \<noteq> f"
proof (intro impI)
  assume a: "f ''book.txt'' = Some old
   \<and> (f ''input.txt'' = None
      \<or> (\<exists>raw. f ''input.txt'' = Some raw \<and> strip raw = [])
      \<or> f ''outline.txt'' = None
      \<or> (\<exists>outline. f ''outline.txt'' = Some outline \<and> load_chapters (csv_reader rt outline) = []))"
  let ?w = "\<lparr>files = archive_existing rt f, calls = 0\<rparr>"
  from a have stop: "(fst (main rt f) = Some (SysExit 0) \<or> fst (main rt f) = Some (SysExit 1))
      \<and> snd (main rt f) = ?w"
    by (auto simp: main_def Let_def read_file_def archive_existing_files
        strip_universal_newlines_empty split: option.splits)
  from a have fs: "archive_existing rt f =
      (f(''book.txt'' := None))(archive_name (timestamp rt) \<mapsto> old)"
    by (simp add: archive_existing_eq)
  have "((f(''book.txt'' := None))(archive_name (timestamp rt) \<mapsto> old)) ''book.txt'' = None"
    using archive_name_distinct(1) [of "timestamp rt"] by simp
  with a have "(f(''book.txt'' := None))(archive_name (timestamp rt) \<mapsto> old) \<noteq> f"
    by (metis option.distinct(1))
  with stop fs archive_name_distinct(1) [of "timestamp rt"]
  show "(fst (main rt f) = Some (SysExit 0) \<or> fst (main rt f) = Some (SysExit 1))
       \<and> calls (snd (main rt f)) = 0
       \<and> files (snd (main rt f)) =
           (f(''book.txt'' := None))(archive_name (timestamp rt) \<mapsto> old)
       \<and> files (snd (main rt f)) ''book.txt'' = None
       \<and> files (snd (main rt f)) (archive_name (timestamp rt)) = Some old
       \<and> files (snd (main rt f)) \<noteq> f"
    by simp
qed

theorem archive_precedes_validation_witness:
  "fst (main \<lparr>endpoint = \<lambda>k p. RequestException, csv_reader = \<lambda>t. [],
          timestamp = ''20240131_235959'', int_max_str_digits = 4300\<rparr>
        [''book.txt'' \<mapsto> ''Old story'', ''outline.txt'' \<mapsto> ''1,Dawn,It begins'']) = Some (SysExit 1)
   \<and> files (snd (main \<lparr>endpoint = \<lambda>k p. RequestException, csv_reader = \<lambda>t. [],
          timestamp = ''20240131_235959'', int_max_str_digits = 4300\<rparr>
        [''book.txt'' \<mapsto> ''Old story'', ''outline.txt'' \<mapsto> ''1,Dawn,It begins''])) ''book.txt'' = None
   \<and> files (snd (main \<lparr>endpoint = \<lambda>k p. RequestException, csv_reader = \<lambda>t. [],
          timestamp = ''20240131_235959'', int_max_str_digits = 4300\<rparr>
        [''book.txt'' \<mapsto> ''Old story'', ''outline.txt'' \<mapsto> ''1,Dawn,It begins'']))
        ''book_20240131_235959.txt'' = Some ''Old story''"
proof -
  have st: "fst (main \<lparr>endpoint = \<lambda>k p. RequestException, csv_reader = \<lambda>t. [],
          timestamp = ''20240131_235959'', int_max_str_digits = 4300\<rparr>
        [''book.txt'' \<mapsto> ''Old story'', ''outline.txt'' \<mapsto> ''1,Dawn,It begins'']) = Some (SysExit 1)"
    by (simp add: main_def Let_def read_file_def archive_existing_def rename_file_def
        archive_name_def)
  show ?thesis
    using archive_precedes_validation
      [of "[''book.txt'' \<mapsto> ''Old story'', ''outline.txt'' \<mapsto> ''1,Dawn,It begins'']"
          "''Old story''"
          "\<lparr>endpoint = \<lambda>k p. RequestException, csv_reader = \<lambda>t. [],
          timestamp = ''20240131_235959'', int_max_str_digits = 4300\<rparr>"] st
    by (simp add: archive_name_def)
qed

lemma consume_abort: "consume ls e t = Inl a \<Longrightarrow> \<exists>x. a = Uncaught x"
  by (induction ls e t rule: consume.induct) (auto split: sum.splits if_splits)

lemma receive_abort_status: "receive r = Inl a \<Longrightarrow> exit_status (Some a) = 1"
  by (cases r) (auto simp: receive_def split: sum.splits dest: consume_abort)




lemma write_chapters_Cons:
  "write_chapters rt s tot ((n, t, ol) # rest) written w =
     (case receive (endpoint rt (calls w) (chapter_prompt n t ol (book_so_far (files w)) s)) of
        Inl a \<Rightarrow> (Some a, w\<lparr>calls := Suc (calls w)\<rparr>)
      | Inr body \<Rightarrow>
          (case receive (endpoint rt (Suc (calls w))
                  (count_prompt (universal_newlines
                     (transcript (files w) @ chapter_block n t body)))) of
             Inl a \<Rightarrow>
               (Some a,
                w\<lparr>files := (files w)(''book.txt'' \<mapsto> transcript (files w) @ chapter_block n t body),
                 calls := Suc (Suc (calls w))\<rparr>)
           | Inr r \<Rightarrow>
               if Suc written < tot then
                 (case receive (endpoint rt (Suc (Suc (calls w)))
                         (ack_prompt (universal_newlines
                            (transcript (files w) @ chapter_block n t body)))) of
                    Inl a \<Rightarrow>
                      (Some a,
                       w\<lparr>files := (files w)(''book.txt'' \<mapsto>
                           transcript (files w) @ chapter_block n t body),
                        calls := Suc (Suc (Suc (calls w)))\<rparr>)
                  | Inr ack \<Rightarrow>
                      write_chapters rt s tot rest (Suc written)
                        (w\<lparr>files := (files w)(''book.txt'' \<mapsto>
                           transcript (files w) @ chapter_block n t body),
                         calls := Suc (Suc (Suc (calls w)))\<rparr>))
               else
                 write_chapters rt s tot rest (Suc written)
                   (w\<lparr>files := (files w)(''book.txt'' \<mapsto>
                      transcript (files w) @ chapter_block n t body),
                    calls := Suc (Suc (calls w))\<rparr>)))"
  by (cases "files w ''book.txt''")
     (auto simp: write_chapter_to_book_def call_ollama_api_def count_words_with_ollama_def
       append_file_def chapter_block_def book_so_far_def read_file_def transcript_def
       split: sum.splits)

declare write_chapters.simps(2) [simp del]

lemma write_chapters_files:
  "\<exists>bodies. length bodies \<le> length chs
      \<and> (fst (write_chapters rt s tot chs written w) = None \<longrightarrow> length bodies = length chs)
      \<and> files (snd (write_chapters rt s tot chs written w)) =
          (if bodies = [] then files w
           else (files w)(''book.txt'' \<mapsto> transcript (files w) @ blocks chs bodies))
      \<and> (\<forall>b\<in>set bodies. \<exists>k p. receive (endpoint rt k p) = Inr b)"
proof (induction chs arbitrary: written w)
  case Nil
  show ?case
    by (rule exI [of _ "[]"]) simp
next
  case (Cons c rest)
  obtain n t ol where c: "c = (n, t, ol)"
    by (cases c)
  let ?r1 = "receive (endpoint rt (calls w) (chapter_prompt n t ol (book_so_far (files w)) s))"
  show ?case
  proof (cases ?r1)
    case (Inl a)
    show ?thesis
      by (rule exI [of _ "[]"]) (simp add: c write_chapters_Cons Inl)
  next
    case (Inr body)
    let ?B = "transcript (files w) @ chapter_block n t body"
    let ?f1 = "(files w)(''book.txt'' \<mapsto> ?B)"
    have one: "blocks (c # rest) [body] = chapter_block n t body"
      by (simp add: blocks_def c)
    have gen: "\<exists>k p. receive (endpoint rt k p) = Inr body"
      using Inr by blast
    have more: "\<exists>bodies. length bodies \<le> length (c # rest)
      \<and> (fst (write_chapters rt s tot rest (Suc written) w') = None \<longrightarrow>
            length bodies = length (c # rest))
      \<and> files (snd (write_chapters rt s tot rest (Suc written) w')) =
          (if bodies = [] then files w
           else (files w)(''book.txt'' \<mapsto> transcript (files w) @ blocks (c # rest) bodies))
      \<and> (\<forall>b\<in>set bodies. \<exists>k p. receive (endpoint rt k p) = Inr b)"
      if w': "files w' = ?f1" for w'
    proof -
      from Cons.IH [of "Suc written" w'] obtain bodies where
        b: "length bodies \<le> length rest"
           "fst (write_chapters rt s tot rest (Suc written) w') = None \<longrightarrow>
              length bodies = length rest"
           "files (snd (write_chapters rt s tot rest (Suc written) w')) =
             (if bodies = [] then files w'
              else (files w')(''book.txt'' \<mapsto> transcript (files w') @ blocks rest bodies))"
           "\<forall>b\<in>set bodies. \<exists>k p. receive (endpoint rt k p) = Inr b"
        by (elim exE conjE)
      have bs: "transcript (files w') = ?B"
        using w' by (simp add: book_so_far_def read_file_def transcript_def)
      have bl: "blocks (c # rest) (body # bodies) = chapter_block n t body @ blocks rest bodies"
        by (simp add: blocks_def c)
      have "blocks rest [] = []"
        by (simp add: blocks_def)
      with b w' bs bl gen show ?thesis
        by (intro exI [of _ "body # bodies"]) auto
    qed
    let ?r2 = "receive (endpoint rt (Suc (calls w)) (count_prompt (universal_newlines ?B)))"
    show ?thesis
    proof (cases ?r2)
      case (Inl a)
      show ?thesis
        using \<open>?r1 = Inr body\<close> Inl one gen
        by (intro exI [of _ "[body]"]) (simp add: c write_chapters_Cons)
    next
      case r2: (Inr r)
      show ?thesis
      proof (cases "Suc written < tot")
        case False
        with \<open>?r1 = Inr body\<close> r2 more [of "w\<lparr>files := ?f1, calls := Suc (Suc (calls w))\<rparr>"]
        show ?thesis
          by (simp add: c write_chapters_Cons)
      next
        case True
        let ?r3 = "receive (endpoint rt (Suc (Suc (calls w))) (ack_prompt (universal_newlines ?B)))"
        show ?thesis
        proof (cases ?r3)
          case (Inl a)
          show ?thesis
            using \<open>?r1 = Inr body\<close> r2 True Inl one gen
            by (intro exI [of _ "[body]"]) (simp add: c write_chapters_Cons)
        next
          case r3: (Inr ack)
          with \<open>?r1 = Inr body\<close> r2 True
            more [of "w\<lparr>files := ?f1, calls := Suc (Suc (Suc (calls w)))\<rparr>"]
          show ?thesis
            by (simp add: c write_chapters_Cons)
        qed
      qed
    qed
  qed
qed

lemma write_chapters_outcome:
  assumes "written + length chs = tot"
  shows "(fst (write_chapters rt s tot chs written w) = None \<longrightarrow>
            calls (snd (write_chapters rt s tot chs written w)) =
              calls w + (3 * length chs - (if chs = [] then 0 else 1))
            \<and> (\<forall>k. calls w \<le> k \<and> k < calls (snd (write_chapters rt s tot chs written w)) \<longrightarrow>
                  (\<exists>p r. receive (endpoint rt k p) = Inr r)))
       \<and> (\<forall>a. fst (write_chapters rt s tot chs written w) = Some a \<longrightarrow>
            exit_status (Some a) = 1
            \<and> (\<exists>k p. calls w \<le> k \<and> k < calls w + (3 * length chs - 1)
                  \<and> receive (endpoint rt k p) = Inl a))"
  using assms
proof (induction chs arbitrary: written w)
  case Nil
  show ?case
    by auto
next
  case (Cons c rest)
  obtain n t ol where c: "c = (n, t, ol)"
    by (cases c)
  have ack: "Suc written < tot \<longleftrightarrow> rest \<noteq> []"
    using Cons.prems by auto
  let ?r1 = "receive (endpoint rt (calls w) (chapter_prompt n t ol (book_so_far (files w)) s))"
  show ?case
  proof (cases ?r1)
    case (Inl a)
    then have "exit_status (Some a) = 1"
      by (rule receive_abort_status)
    moreover have "\<exists>k p. calls w \<le> k \<and> k < calls w + (3 * length (c # rest) - 1)
        \<and> receive (endpoint rt k p) = Inl a"
      using Inl by (intro exI [of _ "calls w"] exI conjI) auto
    ultimately show ?thesis
      using Inl by (simp add: c write_chapters_Cons)
  next
    case (Inr body)
    let ?B = "transcript (files w) @ chapter_block n t body"
    let ?f1 = "(files w)(''book.txt'' \<mapsto> ?B)"
    let ?r2 = "receive (endpoint rt (Suc (calls w)) (count_prompt (universal_newlines ?B)))"
    show ?thesis
    proof (cases ?r2)
      case (Inl a)
      then have "exit_status (Some a) = 1"
        by (rule receive_abort_status)
      moreover have "\<exists>k p. calls w \<le> k \<and> k < calls w + (3 * length (c # rest) - 1)
          \<and> receive (endpoint rt k p) = Inl a"
        using Inl by (intro exI [of _ "Suc (calls w)"] exI conjI) auto
      ultimately show ?thesis
        using Inr Inl by (simp add: c write_chapters_Cons)
    next
      case r2: (Inr r)
      show ?thesis
      proof (cases "rest = []")
        case True
        have "k = calls w \<or> k = Suc (calls w)" if "calls w \<le> k" "k < Suc (Suc (calls w))" for k
          using that by linarith
        with Inr r2 have "\<forall>k. calls w \<le> k \<and> k < Suc (Suc (calls w)) \<longrightarrow>
            (\<exists>p r. receive (endpoint rt k p) = Inr r)"
          by blast
        with Inr r2 True ack show ?thesis
          by (simp add: c write_chapters_Cons)
      next
        case False
        let ?r3 = "receive (endpoint rt (Suc (Suc (calls w))) (ack_prompt (universal_newlines ?B)))"
        show ?thesis
        proof (cases ?r3)
          case (Inl a)
          then have "exit_status (Some a) = 1"
            by (rule receive_abort_status)
          moreover have "\<exists>k p. calls w \<le> k \<and> k < calls w + (3 * length (c # rest) - 1)
              \<and> receive (endpoint rt k p) = Inl a"
            using Inl False by (intro exI [of _ "Suc (Suc (calls w))"] exI conjI) auto
          ultimately show ?thesis
            using Inr r2 Inl False ack by (simp add: c write_chapters_Cons)
        next
          case r3: (Inr ackn)
          let ?w3 = "w\<lparr>files := ?f1, calls := Suc (Suc (Suc (calls w)))\<rparr>"
          let ?R = "write_chapters rt s tot rest (Suc written) ?w3"
          have eq: "write_chapters rt s tot (c # rest) written w = ?R"
            using Inr r2 r3 False ack by (simp add: c write_chapters_Cons)
          have IH: "(fst ?R = None \<longrightarrow>
              calls (snd ?R) = calls ?w3 + (3 * length rest - (if rest = [] then 0 else 1))
              \<and> (\<forall>k. calls ?w3 \<le> k \<and> k < calls (snd ?R) \<longrightarrow>
                    (\<exists>p r. receive (endpoint rt k p) = Inr r)))
            \<and> (\<forall>a. fst ?R = Some a \<longrightarrow>
              exit_status (Some a) = 1
              \<and> (\<exists>k p. calls ?w3 \<le> k \<and> k < calls ?w3 + (3 * length rest - 1)
                    \<and> receive (endpoint rt k p) = Inl a))"
            using Cons.prems by (intro Cons.IH) simp
          have first: "\<exists>p r. receive (endpoint rt k p) = Inr r"
            if "calls w \<le> k" "k < Suc (Suc (Suc (calls w)))" for k
          proof -
            from that have "k = calls w \<or> k = Suc (calls w) \<or> k = Suc (Suc (calls w))"
              by linarith
            with Inr r2 r3 show ?thesis
              by blast
          qed
          have len: "0 < length rest"
            using False by simp
          show ?thesis
          proof (intro conjI impI allI)
            assume "fst (write_chapters rt s tot (c # rest) written w) = None"
            with eq IH len
            show "calls (snd (write_chapters rt s tot (c # rest) written w)) =
                calls w + (3 * length (c # rest) - (if c # rest = [] then 0 else 1))"
              by simp
          next
            fix k
            assume n: "fst (write_chapters rt s tot (c # rest) written w) = None"
              and k: "calls w \<le> k \<and> k < calls (snd (write_chapters rt s tot (c # rest) written w))"
            show "\<exists>p r. receive (endpoint rt k p) = Inr r"
            proof (cases "k < Suc (Suc (Suc (calls w)))")
              case True
              with k first show ?thesis by blast
            next
              case False
              with n k eq IH show ?thesis
                by simp
            qed
          next
            fix a
            assume "fst (write_chapters rt s tot (c # rest) written w) = Some a"
            with eq IH show "exit_status (Some a) = 1"
              by simp
          next
            fix a
            assume "fst (write_chapters rt s tot (c # rest) written w) = Some a"
            with eq IH obtain k p where
              "calls ?w3 \<le> k" "k < calls ?w3 + (3 * length rest - 1)"
              "receive (endpoint rt k p) = Inl a"
              by auto
            with len show "\<exists>k p. calls w \<le> k \<and> k < calls w + (3 * length (c # rest) - 1)
                \<and> receive (endpoint rt k p) = Inl a"
              by (intro exI [of _ k] exI [of _ p]) auto
          qed
        qed
      qed
    qed
  qed
qed

lemma blocks_Nil [simp]: "blocks chs [] = []"
  by (simp add: blocks_def)

lemma write_chapters_book:
  "\<exists>bodies. length bodies \<le> length chs
      \<and> (fst (write_chapters rt s tot chs written w) = None \<longrightarrow> length bodies = length chs)
      \<and> transcript (files (snd (write_chapters rt s tot chs written w))) =
          transcript (files w) @ blocks chs bodies
      \<and> (\<forall>name. name \<noteq> ''book.txt'' \<longrightarrow>
            files (snd (write_chapters rt s tot chs written w)) name = files w name)"
proof -
  from write_chapters_files [of chs rt s tot written w] obtain bodies where
    b: "length bodies \<le> length chs"
       "fst (write_chapters rt s tot chs written w) = None \<longrightarrow> length bodies = length chs"
       "files (snd (write_chapters rt s tot chs written w)) =
          (if bodies = [] then files w
           else (files w)(''book.txt'' \<mapsto> transcript (files w) @ blocks chs bodies))"
    by (elim exE conjE)
  show ?thesis
    using b by (intro exI [of _ bodies]) (auto simp: book_so_far_def read_file_def transcript_def)
qed

lemma write_book_files:
  "files (snd (write_book rt s chs w)) = files (snd (write_chapters rt s (length chs) chs 0 w))"
  by (auto simp: write_book_def summarize_book_def call_ollama_api_def
      split: prod.splits option.splits sum.splits)

lemma write_book_outcome:
  assumes "chs \<noteq> []"
  shows "(fst (write_book rt s chs w) = None \<longrightarrow>
            fst (write_chapters rt s (length chs) chs 0 w) = None
            \<and> calls (snd (write_book rt s chs w)) = calls w + 3 * length chs
            \<and> (\<forall>k. calls w \<le> k \<and> k < calls w + 3 * length chs \<longrightarrow>
                  (\<exists>p r. receive (endpoint rt k p) = Inr r)))
       \<and> (\<forall>a. fst (write_book rt s chs w) = Some a \<longrightarrow>
            exit_status (Some a) = 1
            \<and> (\<exists>k p. calls w \<le> k \<and> k < calls w + 3 * length chs
                  \<and> receive (endpoint rt k p) = Inl a))"
proof -
  let ?L = "write_chapters rt s (length chs) chs 0 w"
  have len: "0 < length chs"
    using assms by simp
  have out: "(fst ?L = None \<longrightarrow>
            calls (snd ?L) = calls w + (3 * length chs - (if chs = [] then 0 else 1))
            \<and> (\<forall>k. calls w \<le> k \<and> k < calls (snd ?L) \<longrightarrow>
                  (\<exists>p r. receive (endpoint rt k p) = Inr r)))
       \<and> (\<forall>a. fst ?L = Some a \<longrightarrow>
            exit_status (Some a) = 1
            \<and> (\<exists>k p. calls w \<le> k \<and> k < calls w + (3 * length chs - 1)
                  \<and> receive (endpoint rt k p) = Inl a))"
    by (rule write_chapters_outcome) simp
  show ?thesis
  proof (cases "fst ?L")
    case (Some a)
    then have wb: "fst (write_book rt s chs w) = Some a"
      by (cases ?L) (simp add: write_book_def)
    from Some out obtain k p where
      "calls w \<le> k" "k < calls w + (3 * length chs - 1)" "receive (endpoint rt k p) = Inl a"
      by auto
    then have "\<exists>k p. calls w \<le> k \<and> k < calls w + 3 * length chs
        \<and> receive (endpoint rt k p) = Inl a"
      by (intro exI [of _ k] exI [of _ p]) auto
    with wb Some out show ?thesis
      by simp
  next
    case None
    from write_chapters_files [of chs rt s "length chs" 0 w] obtain bodies where
      b: "fst ?L = None \<longrightarrow> length bodies = length chs"
         "files (snd ?L) =
          (if bodies = [] then files w
           else (files w)(''book.txt'' \<mapsto> transcript (files w) @ blocks chs bodies))"
      by (elim exE conjE)
    from b None assms have "bodies \<noteq> []"
      by auto
    with b obtain final where final: "read_file ''book.txt'' (files (snd ?L)) = Some final"
      by (simp add: read_file_def)
    let ?k = "calls w + (3 * length chs - 1)"
    from None out assms have c: "calls (snd ?L) = ?k"
      by simp
    let ?r = "receive (endpoint rt ?k (summary_prompt final))"
    have wb: "write_book rt s chs w =
        (case ?r of Inl a \<Rightarrow> (Some a, (snd ?L)\<lparr>calls := Suc ?k\<rparr>)
                  | Inr r \<Rightarrow> (None, (snd ?L)\<lparr>calls := Suc ?k\<rparr>))"
      using None final c
      by (cases ?L) (simp add: write_book_def summarize_book_def call_ollama_api_def
          split: sum.splits)
    show ?thesis
    proof (cases ?r)
      case (Inl a)
      then have "exit_status (Some a) = 1"
        by (rule receive_abort_status)
      moreover have "calls w \<le> ?k \<and> ?k < calls w + 3 * length chs"
        using len by linarith
      then have "\<exists>k p. calls w \<le> k \<and> k < calls w + 3 * length chs
          \<and> receive (endpoint rt k p) = Inl a"
        using Inl by blast
      ultimately show ?thesis
        using wb Inl by simp
    next
      case (Inr r)
      have "\<exists>p r. receive (endpoint rt k p) = Inr r"
        if k: "calls w \<le> k \<and> k < calls w + 3 * length chs" for k
      proof (cases "k < ?k")
        case True
        with k None out c show ?thesis
          by simp
      next
        case False
        with k have "k = ?k"
          by linarith
        with Inr show ?thesis
          by blast
      qed
      with wb Inr None len show ?thesis
        by simp
    qed
  qed
qed

lemma main_valid:
  assumes "f ''input.txt'' = Some raw" and "strip raw \<noteq> []"
      and "f ''outline.txt'' = Some outline" and "load_chapters (csv_reader rt outline) \<noteq> []"
  shows "main rt f =
     write_book rt (strip (universal_newlines raw)) (load_chapters (csv_reader rt outline))
       \<lparr>files = archive_existing rt f, calls = 0\<rparr>"
  using assms by (simp add: main_def Let_def read_file_def archive_existing_files
        strip_universal_newlines_empty)


lemma main_files:
  "\<exists>chs bodies. length bodies \<le> length chs
     \<and> (\<forall>b\<in>set bodies. \<exists>k p. receive (endpoint rt k p) = Inr b)
     \<and> files (snd (main rt f)) =
         (if bodies = [] then archive_existing rt f
          else (archive_existing rt f)(''book.txt'' \<mapsto> blocks chs bodies))"
proof (cases "\<exists>raw outline. f ''input.txt'' = Some raw \<and> strip raw \<noteq> []
    \<and> f ''outline.txt'' = Some outline \<and> load_chapters (csv_reader rt outline) \<noteq> []")
  case False
  then have "files (snd (main rt f)) = archive_existing rt f"
    by (auto simp: main_def Let_def read_file_def archive_existing_files
        strip_universal_newlines_empty split: option.splits)
  then show ?thesis
    by (intro exI [of _ "[]"]) simp
next
  case True
  then obtain raw outline where v: "f ''input.txt'' = Some raw" "strip raw \<noteq> []"
    "f ''outline.txt'' = Some outline" "load_chapters (csv_reader rt outline) \<noteq> []"
    by blast
  let ?chs = "load_chapters (csv_reader rt outline)"
  let ?w = "\<lparr>files = archive_existing rt f, calls = 0\<rparr>"
  from write_chapters_files [of ?chs rt "strip (universal_newlines raw)" "length ?chs" 0 ?w] obtain bodies where
    b: "length bodies \<le> length ?chs"
       "files (snd (write_chapters rt (strip (universal_newlines raw)) (length ?chs) ?chs 0 ?w)) =
          (if bodies = [] then files ?w
           else (files ?w)(''book.txt'' \<mapsto> transcript (files ?w) @ blocks ?chs bodies))"
       "\<forall>b\<in>set bodies. \<exists>k p. receive (endpoint rt k p) = Inr b"
    by (elim exE conjE)
  have "transcript (files ?w) = []"
    by (simp add: book_so_far_def read_file_def transcript_def archive_existing_files)
  with b main_valid [OF v] show ?thesis
    by (intro exI [of _ ?chs] exI [of _ bodies]) (simp add: write_book_files)
qed

lemma load_chapters_well_formed:
  "\<forall>row\<in>set rows. 3 \<le> length row \<Longrightarrow>
     load_chapters rows = map (\<lambda>row. (strip (row ! 0), strip (row ! 1), strip (row ! 2))) rows"
  by (induction rows) auto

lemma blocks_rows:
  "blocks (map (\<lambda>row. (strip (row ! 0), strip (row ! 1), strip (row ! 2))) rows) bodies =
     concat (map2 (\<lambda>row body. chapter_block (strip (row ! 0)) (strip (row ! 1)) body) rows bodies)"
  by (simp add: blocks_def zip_map1 split_def o_def)

lemma chapter_block_text:
  "chapter_block n t body =
     [NL, NL] @ ''### Chapter '' @ n @ '': '' @ t @ [NL, NL] @ body @ [NL]"
  by (simp add: chapter_block_def chapter_heading_def)

lemma blocks_text:
  "blocks chs bodies =
     concat (map2 (\<lambda>(n, t, ol) body.
               [NL, NL] @ ''### Chapter '' @ n @ '': '' @ t @ [NL, NL] @ body @ [NL]) chs bodies)"
  by (simp only: blocks_def chapter_block_text)

text \<open>
  C1. When every row of the outline has at least three fields and the run reaches the
  end of \<open>main\<close>, the transcript it leaves is one block per row, in the order of the
  rows: two newlines, the heading line \<open>### Chapter <number>: <title>\<close> with the row's
  stripped chapter number and title, two newlines, a body that the client returned for
  some request of the run, and a newline. The transcript is only extended: from any
  state of the loop, however the rest of the loop ends, the transcript it leaves starts
  with the transcript of that state, followed by such blocks for chapters still to
  write; and one call of the chapter writer that returns appends exactly one block.
\<close>

theorem run_appends_one_block_per_row:
  "(f ''input.txt'' = Some raw \<and> strip raw \<noteq> [] \<and> f ''outline.txt'' = Some outline
      \<and> csv_reader rt outline = rows \<and> (\<forall>row\<in>set rows. 3 \<le> length row)
      \<and> fst (main rt f) = None
    \<longrightarrow> (\<exists>bodies. length bodies = length rows
          \<and> (\<forall>b\<in>set bodies. \<exists>k p. receive (endpoint rt k p) = Inr b)
          \<and> files (snd (main rt f)) ''book.txt'' =
              Some (concat (map2 (\<lambda>row body.
                      [NL, NL] @ ''### Chapter '' @ strip (row ! 0) @ '': '' @ strip (row ! 1) @ [NL, NL] @ body @ [NL])
                    rows bodies))))
   \<and> (\<exists>bodies. length bodies \<le> length chs
        \<and> transcript (files (snd (write_chapters rt s tot chs written w))) =
            transcript (files w)
            @ concat (map2 (\<lambda>(n, t, ol) body.
                        [NL, NL] @ ''### Chapter '' @ n @ '': '' @ t @ [NL, NL] @ body @ [NL]) chs bodies))
   \<and> prefix (transcript (files w))
        (transcript (files (snd (write_chapters rt s tot chs written w))))
   \<and> (fst (call_ollama_api rt (chapter_prompt n t ol cur s) w) = Inr body
    \<longrightarrow> transcript (files (snd (write_chapter_to_book rt n t ol cur s w))) =
          transcript (files w)
          @ [NL, NL] @ ''### Chapter '' @ n @ '': '' @ t @ [NL, NL] @ body @ [NL])"
proof (intro conjI impI)
  assume a: "f ''input.txt'' = Some raw \<and> strip raw \<noteq> [] \<and> f ''outline.txt'' = Some outline
      \<and> csv_reader rt outline = rows \<and> (\<forall>row\<in>set rows. 3 \<le> length row)
      \<and> fst (main rt f) = None"
  let ?chs = "map (\<lambda>row. (strip (row ! 0), strip (row ! 1), strip (row ! 2))) rows"
  let ?w = "\<lparr>files = archive_existing rt f, calls = 0\<rparr>"
  let ?L = "write_chapters rt (strip (universal_newlines raw)) (length ?chs) ?chs 0 ?w"
  from a have chs: "load_chapters (csv_reader rt outline) = ?chs"
    by (simp add: load_chapters_well_formed)
  have ne: "?chs \<noteq> []"
  proof
    assume "?chs = []"
    with a chs have "fst (main rt f) = Some (SysExit 0)"
      by (simp add: main_def Let_def read_file_def archive_existing_files
        strip_universal_newlines_empty)
    with a show False
      by simp
  qed
  with a chs have m: "main rt f = write_book rt (strip (universal_newlines raw)) ?chs ?w"
    using main_valid [of f raw outline rt] by simp
  with a write_book_outcome [OF ne, of rt "strip (universal_newlines raw)" ?w] have fin: "fst ?L = None"
    by simp
  from write_chapters_files [of ?chs rt "strip (universal_newlines raw)" "length ?chs" 0 ?w] obtain bodies where
    b: "fst ?L = None \<longrightarrow> length bodies = length ?chs"
       "files (snd ?L) =
          (if bodies = [] then files ?w
           else (files ?w)(''book.txt'' \<mapsto> transcript (files ?w) @ blocks ?chs bodies))"
       "\<forall>b\<in>set bodies. \<exists>k p. receive (endpoint rt k p) = Inr b"
    by (elim exE conjE)
  have empty: "transcript (files ?w) = []"
    by (simp add: book_so_far_def read_file_def transcript_def archive_existing_files)
  from b fin ne have "bodies \<noteq> []" "length bodies = length rows"
    by auto
  with b empty m
  have "files (snd (main rt f)) ''book.txt'' = Some (blocks ?chs bodies)"
    by (simp add: write_book_files)
  then have "files (snd (main rt f)) ''book.txt'' =
      Some (concat (map2 (\<lambda>row body.
              chapter_block (strip (row ! 0)) (strip (row ! 1)) body) rows bodies))"
    by (simp only: blocks_rows)
  then have "files (snd (main rt f)) ''book.txt'' =
      Some (concat (map2 (\<lambda>row body.
              [NL, NL] @ ''### Chapter '' @ strip (row ! 0) @ '': '' @ strip (row ! 1) @ [NL, NL] @ body @ [NL])
            rows bodies))"
    by (simp only: chapter_block_text)
  with b(3) \<open>length bodies = length rows\<close>
  show "\<exists>bodies. length bodies = length rows
          \<and> (\<forall>b\<in>set bodies. \<exists>k p. receive (endpoint rt k p) = Inr b)
          \<and> files (snd (main rt f)) ''book.txt'' =
              Some (concat (map2 (\<lambda>row body.
                      [NL, NL] @ ''### Chapter '' @ strip (row ! 0) @ '': '' @ strip (row ! 1) @ [NL, NL] @ body @ [NL])
                    rows bodies))"
    by blast
next
  from write_chapters_book [of chs rt s tot written w]
  have "\<exists>bodies. length bodies \<le> length chs
        \<and> transcript (files (snd (write_chapters rt s tot chs written w))) =
            transcript (files w) @ blocks chs bodies"
    by blast
  then show "\<exists>bodies. length bodies \<le> length chs
        \<and> transcript (files (snd (write_chapters rt s tot chs written w))) =
            transcript (files w)
            @ concat (map2 (\<lambda>(n, t, ol) body.
                        [NL, NL] @ ''### Chapter '' @ n @ '': '' @ t @ [NL, NL] @ body @ [NL]) chs bodies)"
    by (simp only: blocks_text)
next
  from write_chapters_book [of chs rt s tot written w]
  show "prefix (transcript (files w))
        (transcript (files (snd (write_chapters rt s tot chs written w))))"
    by (auto simp: prefix_def)
next
  assume "fst (call_ollama_api rt (chapter_prompt n t ol cur s) w) = Inr body"
  from write_chapter_to_book_appends [OF this]
  have "transcript (files (snd (write_chapter_to_book rt n t ol cur s w))) =
          transcript (files w) @ chapter_block n t body"
    by (simp add: transcript_def)
  then show "transcript (files (snd (write_chapter_to_book rt n t ol cur s w))) =
          transcript (files w)
          @ [NL, NL] @ ''### Chapter '' @ n @ '': '' @ t @ [NL, NL] @ body @ [NL]"
    by (simp only: chapter_block_text)
qed

theorem run_appends_one_block_per_row_witness:
  "(let rt = \<lparr>endpoint = \<lambda>k p. Streaming
                 [Parsed (JObj [(''response'', JStr '' Text ''), (''done'', JBool True)])] Eof,
              csv_reader = \<lambda>t. [[''1'', '' Dawn'', ''It begins''], [''2'', ''Dusk '', ''It ends'', ''!'']],
              timestamp = ''20240131_235959'', int_max_str_digits = 4300\<rparr>;
        f = [''input.txt'' \<mapsto> ''A book'', ''outline.txt'' \<mapsto> ''the outline'']
    in fst (main rt f) = None
       \<and> files (snd (main rt f)) ''book.txt'' =
           Some ([NL, NL] @ ''### Chapter 1: Dawn'' @ [NL, NL] @ ''Text'' @ [NL]
                 @ [NL, NL] @ ''### Chapter 2: Dusk'' @ [NL, NL] @ ''Text'' @ [NL])
       \<and> (\<exists>bodies. length bodies = 2
            \<and> files (snd (main rt f)) ''book.txt'' =
                Some (concat (map2 (\<lambda>row body.
                        [NL, NL] @ ''### Chapter '' @ strip (row ! 0) @ '': '' @ strip (row ! 1) @ [NL, NL] @ body @ [NL])
                      [[''1'', '' Dawn'', ''It begins''], [''2'', ''Dusk '', ''It ends'', ''!'']]
                      bodies))))"
proof -
  let ?rt = "\<lparr>endpoint = \<lambda>k p. Streaming
                 [Parsed (JObj [(''response'', JStr '' Text ''), (''done'', JBool True)])] Eof,
              csv_reader = \<lambda>t. [[''1'', '' Dawn'', ''It begins''], [''2'', ''Dusk '', ''It ends'', ''!'']],
              timestamp = ''20240131_235959'', int_max_str_digits = 4300\<rparr>"
  let ?f = "[''input.txt'' \<mapsto> ''A book'', ''outline.txt'' \<mapsto> ''the outline'']"
  have run: "fst (main ?rt ?f) = None
      \<and> files (snd (main ?rt ?f)) ''book.txt'' =
           Some ([NL, NL] @ ''### Chapter 1: Dawn'' @ [NL, NL] @ ''Text'' @ [NL]
                 @ [NL, NL] @ ''### Chapter 2: Dusk'' @ [NL, NL] @ ''Text'' @ [NL])"
    by (simp add: main_def Let_def read_file_def archive_existing_def strip_def py_isspace_def
        write_book_def write_chapters_Cons receive_def book_so_far_def transcript_def
        summarize_book_def call_ollama_api_def chapter_block_def chapter_heading_def)
  let ?rows = "[[''1'', '' Dawn'', ''It begins''], [''2'', ''Dusk '', ''It ends'', ''!'']]"
  have hyps: "?f ''input.txt'' = Some ''A book'' \<and> strip ''A book'' \<noteq> []
      \<and> ?f ''outline.txt'' = Some ''the outline''
      \<and> csv_reader ?rt ''the outline'' = ?rows \<and> (\<forall>row\<in>set ?rows. 3 \<le> length row)
      \<and> fst (main ?rt ?f) = None"
    using run by (simp add: strip_def py_isspace_def)
  from run_appends_one_block_per_row
    [of ?f "''A book''" "''the outline''" ?rt ?rows, THEN conjunct1, THEN mp, OF hyps]
  obtain bodies where
    b: "length bodies = length ?rows"
       "files (snd (main ?rt ?f)) ''book.txt'' =
          Some (concat (map2 (\<lambda>row body.
                  [NL, NL] @ ''### Chapter '' @ strip (row ! 0) @ '': '' @ strip (row ! 1) @ [NL, NL] @ body @ [NL]) ?rows bodies))"
    by (elim exE conjE)
  have "\<exists>bodies. length bodies = 2
            \<and> files (snd (main ?rt ?f)) ''book.txt'' =
                Some (concat (map2 (\<lambda>row body.
                        [NL, NL] @ ''### Chapter '' @ strip (row ! 0) @ '': '' @ strip (row ! 1) @ [NL, NL] @ body @ [NL]) ?rows bodies))"
    using b by (intro exI [of _ bodies] conjI) simp_all
  with run show ?thesis
    by (simp add: Let_def)
qed




text \<open>
  C6. When a transcript exists at the start of a run, the first step renames it to
  \<open>book_<timestamp>.txt\<close> with its content, so that no transcript is left and the story
  so far is empty; however the run ends, the archive still holds the old content, no
  other file but the transcript has changed, and the transcript is absent or made of
  blocks written by this run, each with a body the client returned during it.
\<close>

theorem prior_transcript_is_archived:
  "f ''book.txt'' = Some old
   \<longrightarrow> archive_existing rt f = (f(''book.txt'' := None))(archive_name (timestamp rt) \<mapsto> old)
       \<and> archive_name (timestamp rt) = ''book_'' @ timestamp rt @ ''.txt''
       \<and> archive_name (timestamp rt) \<noteq> ''book.txt''
       \<and> book_so_far (archive_existing rt f) = []
       \<and> files (snd (main rt f)) (archive_name (timestamp rt)) = Some old
       \<and> (\<forall>name. name \<noteq> ''book.txt'' \<and> name \<noteq> archive_name (timestamp rt) \<longrightarrow>
             files (snd (main rt f)) name = f name)
       \<and> (\<exists>chs bodies. length bodies \<le> length chs
             \<and> (\<forall>b\<in>set bodies. \<exists>k p. receive (endpoint rt k p) = Inr b)
             \<and> files (snd (main rt f)) ''book.txt'' =
                 (if bodies = [] then None else Some (blocks chs bodies)))"
proof (intro impI)
  assume old: "f ''book.txt'' = Some old"
  let ?a = "archive_name (timestamp rt)"
  have ne: "?a \<noteq> ''book.txt''"
    by (rule archive_name_distinct)
  have arch: "archive_existing rt f = (f(''book.txt'' := None))(?a \<mapsto> old)"
    using old by (rule archive_existing_eq)
  have empty: "book_so_far (archive_existing rt f) = []"
    by (simp add: book_so_far_def read_file_def transcript_def archive_existing_files)
  from main_files [of rt f] obtain chs bodies where
    b: "length bodies \<le> length chs"
       "\<forall>b\<in>set bodies. \<exists>k p. receive (endpoint rt k p) = Inr b"
       "files (snd (main rt f)) =
         (if bodies = [] then archive_existing rt f
          else (archive_existing rt f)(''book.txt'' \<mapsto> blocks chs bodies))"
    by (elim exE conjE)
  have kept: "files (snd (main rt f)) ?a = Some old"
    using b(3) arch ne by simp
  have others: "\<forall>name. name \<noteq> ''book.txt'' \<and> name \<noteq> ?a \<longrightarrow>
      files (snd (main rt f)) name = f name"
    using b(3) arch by simp
  have book: "files (snd (main rt f)) ''book.txt'' =
      (if bodies = [] then None else Some (blocks chs bodies))"
    using b(3) by (simp add: archive_existing_files)
  have "\<exists>chs bodies. length bodies \<le> length chs
             \<and> (\<forall>b\<in>set bodies. \<exists>k p. receive (endpoint rt k p) = Inr b)
             \<and> files (snd (main rt f)) ''book.txt'' =
                 (if bodies = [] then None else Some (blocks chs bodies))"
    using b(1,2) book by blast
  with arch ne empty kept others
  show "archive_existing rt f = (f(''book.txt'' := None))(?a \<mapsto> old)
       \<and> ?a = ''book_'' @ timestamp rt @ ''.txt''
       \<and> ?a \<noteq> ''book.txt''
       \<and> book_so_far (archive_existing rt f) = []
       \<and> files (snd (main rt f)) ?a = Some old
       \<and> (\<forall>name. name \<noteq> ''book.txt'' \<and> name \<noteq> ?a \<longrightarrow>
             files (snd (main rt f)) name = f name)
       \<and> (\<exists>chs bodies. length bodies \<le> length chs
             \<and> (\<forall>b\<in>set bodies. \<exists>k p. receive (endpoint rt k p) = Inr b)
             \<and> files (snd (main rt f)) ''book.txt'' =
                 (if bodies = [] then None else Some (blocks chs bodies)))"
    by (simp add: archive_name_def)
qed

theorem prior_transcript_is_archived_witness:
  "(let rt = \<lparr>endpoint = \<lambda>k p. Streaming
                 [Parsed (JObj [(''response'', JStr ''Text''), (''done'', JBool True)])] Eof,
              csv_reader = \<lambda>t. [[''1'', ''Dawn'', ''It begins'']],
              timestamp = ''20240131_235959'', int_max_str_digits = 4300\<rparr>;
        f = [''input.txt'' \<mapsto> ''A book'', ''outline.txt'' \<mapsto> ''the outline'',
             ''book.txt'' \<mapsto> ''Old story'']
    in files (snd (main rt f)) ''book_20240131_235959.txt'' = Some ''Old story''
       \<and> files (snd (main rt f)) ''book.txt'' = Some (chapter_block ''1'' ''Dawn'' ''Text'')
       \<and> files (snd (main rt f)) ''input.txt'' = Some ''A book'')"
proof -
  let ?rt = "\<lparr>endpoint = \<lambda>k p. Streaming
                 [Parsed (JObj [(''response'', JStr ''Text''), (''done'', JBool True)])] Eof,
              csv_reader = \<lambda>t. [[''1'', ''Dawn'', ''It begins'']],
              timestamp = ''20240131_235959'', int_max_str_digits = 4300\<rparr>"
  let ?f = "[''input.txt'' \<mapsto> ''A book'', ''outline.txt'' \<mapsto> ''the outline'',
             ''book.txt'' \<mapsto> ''Old story'']"
  have run: "files (snd (main ?rt ?f)) ''book.txt'' = Some (chapter_block ''1'' ''Dawn'' ''Text'')"
    by (simp add: main_def Let_def read_file_def archive_existing_def rename_file_def
        archive_name_def strip_def py_isspace_def
        write_book_def write_chapters_Cons receive_def book_so_far_def transcript_def summarize_book_def
        call_ollama_api_def)
  have "?f ''book.txt'' = Some ''Old story''"
    by simp
  from prior_transcript_is_archived [of ?f "''Old story''" ?rt, THEN mp, OF this]
  have "files (snd (main ?rt ?f)) (archive_name ''20240131_235959'') = Some ''Old story''
      \<and> files (snd (main ?rt ?f)) ''input.txt'' = ?f ''input.txt''"
    by (simp add: archive_name_def)
  with run show ?thesis
    by (simp add: Let_def archive_name_def)
qed

end
